theory Spec2Isabelle
  imports
    Main
    "HOL-Library.Char_ord"
    "HOL-Library.List_Lexorder"
    "HOL-Library.Multiset"
begin

section \<open>Strings and POSIX paths\<close>

text \<open>
  Python strings are modelled as \<^typ>\<open>string\<close>. The order used by \<^verbatim>\<open>sorted\<close> and
  \<^verbatim>\<open>list.sort\<close> on strings is the lexicographic order on characters, which is the
  order of \<^typ>\<open>string\<close> with the two order theories imported above.
  \<^verbatim>\<open>os.sep\<close> is \<^verbatim>\<open>'/'\<close>: the program cleans macOS artifacts and uses \<^verbatim>\<open>posixpath\<close>.
\<close>

abbreviation sep :: char where
  "sep \<equiv> CHR ''/''"

text \<open>\<^verbatim>\<open>s.startswith(p)\<close> and \<^verbatim>\<open>s.endswith(p)\<close>.\<close>

definition startswith :: "string \<Rightarrow> string \<Rightarrow> bool" where
  "startswith s p = (take (length p) s = p)"

definition endswith :: "string \<Rightarrow> string \<Rightarrow> bool" where
  "endswith s p = (drop (length s - length p) s = p)"

text \<open>\<^verbatim>\<open>sub in s\<close> for two strings: \<^verbatim>\<open>sub\<close> occurs in \<^verbatim>\<open>s\<close> at some position.\<close>

fun contains :: "string \<Rightarrow> string \<Rightarrow> bool" where
  "contains sub [] = (sub = [])"
| "contains sub (c # cs) = (startswith (c # cs) sub \<or> contains sub cs)"

text \<open>\<^verbatim>\<open>s.split(os.sep)\<close>: the result is never empty, \<^verbatim>\<open>''.split('/') == ['']\<close>.\<close>

fun split_sep :: "string \<Rightarrow> string list" where
  "split_sep [] = [[]]"
| "split_sep (c # cs) =
     (if c = sep then [] # split_sep cs
      else (c # hd (split_sep cs)) # tl (split_sep cs))"

text \<open>\<^verbatim>\<open>os.sep.join(parts)\<close>.\<close>

fun sep_join :: "string list \<Rightarrow> string" where
  "sep_join [] = []"
| "sep_join [x] = x"
| "sep_join (x # y # ys) = x @ sep # sep_join (y # ys)"

text \<open>
  \<^verbatim>\<open>os.path.join(a, b)\<close> of \<^verbatim>\<open>posixpath\<close>: an absolute \<^verbatim>\<open>b\<close> replaces \<^verbatim>\<open>a\<close>; no
  separator is added after an empty \<^verbatim>\<open>a\<close> or one that ends with a separator.
\<close>

definition path_join :: "string \<Rightarrow> string \<Rightarrow> string" where
  "path_join a b =
     (if startswith b [sep] then b
      else if a = [] \<or> endswith a [sep] then a @ b
      else a @ sep # b)"

text \<open>\<^verbatim>\<open>p.rfind(sep) + 1\<close>: the index after the last separator, 0 when there is none.\<close>

definition rfind_sep1 :: "string \<Rightarrow> nat" where
  "rfind_sep1 p = length p - length (takeWhile (\<lambda>c. c \<noteq> sep) (rev p))"

text \<open>\<^verbatim>\<open>s.rstrip(sep)\<close>\<close>

definition rstrip_sep :: "string \<Rightarrow> string" where
  "rstrip_sep s = rev (dropWhile (\<lambda>c. c = sep) (rev s))"

text \<open>
  \<^verbatim>\<open>os.path.dirname\<close> and \<^verbatim>\<open>os.path.basename\<close> of \<^verbatim>\<open>posixpath\<close>:
  \<^verbatim>\<open>
  i = p.rfind(sep) + 1
  head = p[:i]
  if head and head != sep*len(head):
      head = head.rstrip(sep)
  return head          # basename: return p[i:]
  \<close>
\<close>

definition dirname :: "string \<Rightarrow> string" where
  "dirname p =
     (let head = take (rfind_sep1 p) p
      in if head \<noteq> [] \<and> head \<noteq> replicate (length head) sep then rstrip_sep head else head)"

definition basename :: "string \<Rightarrow> string" where
  "basename p = drop (rfind_sep1 p) p"

section \<open>The classifier\<close>

definition CLEANUP_FILES :: "string set" where
  "CLEANUP_FILES =
     {''.DS_Store'',
      ''.localized'',
      ''.AppleDouble'',
      ''.LSOverride'',
      ''Thumbs.db'',
      ''.com.apple.timemachine.supported'',
      ''.DocumentRevisions-V100'',
      ''.Spotlight-V100'',
      ''.TemporaryItems'',
      ''.Trashes'',
      ''.VolumeIcon.icns'',
      ''.fseventsd'',
      ''.apdisk''}"

definition should_clean_file :: "string \<Rightarrow> string \<Rightarrow> bool" where
  "should_clean_file filename filepath =
     (if startswith filename ''.'' then True
      else if filename \<in> CLEANUP_FILES then True
      else if startswith filename ''._'' then True
      else if contains ''.AppleDouble'' filepath then True
      else False)"

text \<open>
  The classifier of the specification's edge-case remark: the same rules in the same
  order, with the denylist membership check (rule 2) removed.
\<close>

definition should_clean_file_without_denylist :: "string \<Rightarrow> string \<Rightarrow> bool" where
  "should_clean_file_without_denylist filename filepath =
     (if startswith filename ''.'' then True
      else if startswith filename ''._'' then True
      else if contains ''.AppleDouble'' filepath then True
      else False)"

section \<open>The data model\<close>

text \<open>The class \<^verbatim>\<open>FileStats\<close> and its constructor.\<close>

record FileStats =
  total_files :: int
  cleaned_files :: int
  cleaned_size :: int
  errors :: "string list"

definition FileStats_init :: FileStats where
  "FileStats_init = \<lparr>total_files = 0, cleaned_files = 0, cleaned_size = 0, errors = []\<rparr>"

text \<open>
  The dictionary \<^verbatim>\<open>file_info\<close> built for a surviving file. It keeps \<^verbatim>\<open>raw_size\<close> and
  the modification time in seconds; the two rendered strings of the source
  (\<^verbatim>\<open>humanize.naturalsize\<close> of the size, \<^verbatim>\<open>strftime\<close> of the time) are functions
  of these two fields computed by external libraries, and are left out.
\<close>

record file_info =
  filename :: string
  relative_path :: string
  raw_size :: int
  modified :: int
  directory :: string

text \<open>The dictionary \<^verbatim>\<open>dir_info\<close> built for a directory.\<close>

record dir_info =
  directory_path :: string
  depth :: int
  parent_directory :: string
  directory_name :: string

section \<open>The file system\<close>

text \<open>
  What the program observes of a directory entry that is not a directory.
  \<^item> \<open>os_stat\<close> is the result of \<^verbatim>\<open>os.stat\<close> of the path (which \<^verbatim>\<open>os.path.getsize\<close>
    calls too): its size and modification time, or the exception it raises, kept as its
    message.
  \<^item> \<open>os_remove\<close> is the exception that \<^verbatim>\<open>os.remove\<close> of the path raises, if any.
  \<^item> \<open>link_chain\<close> is empty for a regular file. For a symbolic link it lists the files of
    the scanned tree that \<^verbatim>\<open>os.stat\<close>, which follows links, goes through: each further
    link and the file at the end, each as the names from the root to it. \<open>os_stat\<close> is
    then the result as long as all of them exist, and \<^verbatim>\<open>FileNotFoundError\<close> is raised
    once one of them is gone. \<^verbatim>\<open>os.remove\<close> removes the link itself.
  \<^item> \<open>record_error\<close> is the exception, if any, raised between a successful \<^verbatim>\<open>os.stat\<close>
    and the \<^verbatim>\<open>append\<close> of the record, that is by the calls that render it
    (\<^verbatim>\<open>datetime.fromtimestamp\<close> on a time stamp outside the supported range, for
    instance).
\<close>

record stat_result =
  st_size :: int
  st_mtime :: int

record fattr =
  os_stat :: "string + stat_result"
  os_remove :: "string option"
  link_chain :: "string list list"
  record_error :: "string option"

text \<open>
  A directory is the list of its entries in the order \<^verbatim>\<open>os.scandir\<close> yields them.
  \<^verbatim>\<open>os.walk\<close> puts an entry among the directory names when \<^verbatim>\<open>is_dir()\<close> holds and
  among the file names otherwise. \<open>Unlisted\<close> is an entry whose \<^verbatim>\<open>is_dir()\<close> holds but
  that \<^verbatim>\<open>os.walk\<close> does not list: a symbolic link to a directory below the root
  (\<^verbatim>\<open>followlinks\<close> is false), or a directory whose \<^verbatim>\<open>scandir\<close> raises \<^verbatim>\<open>OSError\<close>,
  which \<^verbatim>\<open>os.walk\<close> ignores since no \<^verbatim>\<open>onerror\<close> is given.
\<close>

datatype fsnode = File fattr | Dir "(string \<times> fsnode) list" | Unlisted

text \<open>
  The paths, as lists of names from the root, of the entries of a tree that are not
  directories: the files on disk below the root, hidden directories included.
\<close>

fun file_paths :: "string list \<Rightarrow> fsnode \<Rightarrow> string list list"
  and entry_paths :: "string list \<Rightarrow> (string \<times> fsnode) list \<Rightarrow> string list list"
where
  "file_paths rel_dir (Dir entries) = entry_paths rel_dir entries"
| "file_paths rel_dir (File a) = []"
| "file_paths rel_dir Unlisted = []"
| "entry_paths rel_dir [] = []"
| "entry_paths rel_dir ((name, File a) # entries) =
     (rel_dir @ [name]) # entry_paths rel_dir entries"
| "entry_paths rel_dir ((name, Dir sub) # entries) =
     entry_paths (rel_dir @ [name]) sub @ entry_paths rel_dir entries"
| "entry_paths rel_dir ((name, Unlisted) # entries) = entry_paths rel_dir entries"

section \<open>The walker and cleaner\<close>

text \<open>
  The message of the \<^verbatim>\<open>FileNotFoundError\<close> that \<^verbatim>\<open>os.stat(full_path)\<close> raises; it ends
  with the path between single quotes (as \<^verbatim>\<open>repr\<close> writes a path that holds no quote,
  backslash or unprintable character).
\<close>

definition ENOENT :: "string \<Rightarrow> string" where
  "ENOENT full_path =
     ''[Errno 2] No such file or directory: '' @ [CHR 0x27] @ full_path @ [CHR 0x27]"

text \<open>
  \<^verbatim>\<open>os.stat(full_path)\<close> while the files \<open>on_disk\<close> exist below the root: a symbolic
  link with a file of its chain no longer among them raises \<^verbatim>\<open>FileNotFoundError\<close>.
  \<^verbatim>\<open>os.path.getsize(full_path)\<close> is \<^verbatim>\<open>os.stat(full_path).st_size\<close>.
\<close>

definition stat_now :: "string list list \<Rightarrow> string \<Rightarrow> fattr \<Rightarrow> string + stat_result" where
  "stat_now on_disk full_path a =
     (if list_all (\<lambda>target. target \<in> set on_disk) (link_chain a) then os_stat a
      else Inl (ENOENT full_path))"

definition getsize :: "string list list \<Rightarrow> string \<Rightarrow> fattr \<Rightarrow> string + int" where
  "getsize on_disk full_path a =
     (case stat_now on_disk full_path a of Inl e \<Rightarrow> Inl e | Inr st \<Rightarrow> Inr (st_size st))"

text \<open>
  \<^verbatim>\<open>os.path.relpath(full_path, root_path)\<close> for a \<^verbatim>\<open>full_path\<close> that the walk built by
  joining to \<^verbatim>\<open>root_path\<close> the directory names \<open>rel_dir\<close> and then the file name: these
  names joined by the separator.
\<close>

definition relpath :: "string list \<Rightarrow> string \<Rightarrow> string" where
  "relpath rel_dir name = sep_join (rel_dir @ [name])"

definition error_msg :: "string \<Rightarrow> string \<Rightarrow> string" where
  "error_msg full_path e = ''Error processing '' @ full_path @ '': '' @ e"

text \<open>
  The state threaded through the walk: the list \<^verbatim>\<open>file_data\<close>, the accumulator
  \<^verbatim>\<open>stats\<close>, and the paths of the files that are on disk below the root.
\<close>

type_synonym walk_state = "file_info list \<times> FileStats \<times> string list list"

text \<open>
  The body of the loop over \<^verbatim>\<open>filenames\<close> for one entry. Every exception raised inside
  \<^verbatim>\<open>try\<close> reaches the handler, which appends one message to \<^verbatim>\<open>stats.errors\<close>;
  the inner \<^verbatim>\<open>try\<close> around \<^verbatim>\<open>getsize\<close> swallows its exception. When \<^verbatim>\<open>os.remove\<close>
  succeeds the path is no longer on disk. The first component of the result is what is
  left of the entry in the directory: nothing when \<^verbatim>\<open>os.remove\<close> succeeded, the entry
  otherwise. What \<^verbatim>\<open>os.stat\<close> gives for an entry that is left is again \<open>stat_now\<close>,
  among the files that are then on disk.
\<close>

definition visit_file ::
  "string \<Rightarrow> string list \<Rightarrow> string \<times> fattr \<Rightarrow> walk_state \<Rightarrow> (string \<times> fattr) list \<times> walk_state" where
  "visit_file dirpath rel_dir entry state =
     (case (entry, state) of ((name, a), (file_data, stats, on_disk)) \<Rightarrow>
        let full_path = path_join dirpath name;
            stats = stats\<lparr>total_files := total_files stats + 1\<rparr>
        in if should_clean_file name full_path then
             let stats = (case getsize on_disk full_path a of
                            Inr file_size \<Rightarrow> stats\<lparr>cleaned_size := cleaned_size stats + file_size\<rparr>
                          | Inl _ \<Rightarrow> stats)
             in (case os_remove a of
                   None \<Rightarrow>
                     ([], (file_data, stats\<lparr>cleaned_files := cleaned_files stats + 1\<rparr>,
                           removeAll (rel_dir @ [name]) on_disk))
                 | Some e \<Rightarrow>
                     ([entry],
                      (file_data, stats\<lparr>errors := errors stats @ [error_msg full_path e]\<rparr>,
                       on_disk)))
           else
             (case stat_now on_disk full_path a of
                Inl e \<Rightarrow>
                  ([entry],
                   (file_data, stats\<lparr>errors := errors stats @ [error_msg full_path e]\<rparr>,
                    on_disk))
              | Inr file_stats \<Rightarrow>
                  (case record_error a of
                     Some e \<Rightarrow>
                       ([entry],
                        (file_data, stats\<lparr>errors := errors stats @ [error_msg full_path e]\<rparr>,
                         on_disk))
                   | None \<Rightarrow>
                       let rel_path = relpath rel_dir name;
                           file_info = \<lparr>filename = name,
                                        relative_path = rel_path,
                                        raw_size = st_size file_stats,
                                        modified = st_mtime file_stats,
                                        directory = dirname rel_path\<rparr>
                       in ([entry], (file_data @ [file_info], stats, on_disk)))))"

fun visit_files ::
  "string \<Rightarrow> string list \<Rightarrow> (string \<times> fattr) list \<Rightarrow> walk_state \<Rightarrow> (string \<times> fattr) list \<times> walk_state" where
  "visit_files dirpath rel_dir [] state = ([], state)"
| "visit_files dirpath rel_dir (entry # filenames) state =
     (let (kept, state) = visit_file dirpath rel_dir entry state;
          (kept', state) = visit_files dirpath rel_dir filenames state
      in (kept @ kept', state))"

text \<open>The lists \<^verbatim>\<open>nondirs\<close> and \<^verbatim>\<open>dirs\<close> that \<^verbatim>\<open>os.walk\<close> builds from a directory listing.\<close>

definition nondirs :: "(string \<times> fsnode) list \<Rightarrow> (string \<times> fattr) list" where
  "nondirs entries = concat (map (\<lambda>(name, node). case node of File a \<Rightarrow> [(name, a)] | _ \<Rightarrow> []) entries)"

definition dirs :: "(string \<times> fsnode) list \<Rightarrow> (string \<times> fsnode) list" where
  "dirs entries = filter (\<lambda>(name, node). case node of File a \<Rightarrow> False | _ \<Rightarrow> True) entries"

definition hidden :: "string \<times> 'a \<Rightarrow> bool" where
  "hidden entry = startswith (fst entry) ''.''"

text \<open>
  \<^verbatim>\<open>os.walk(root_path, topdown=True)\<close> with the loop body of \<^verbatim>\<open>clean_directory\<close>: the
  body prunes the hidden directory names and sorts both lists, visits the files of the
  directory, and only then does \<^verbatim>\<open>os.walk\<close> descend into the directory names that are
  left, in order. A directory is listed when the walk reaches it, and until then the walk
  has removed nothing from it, so the entries listed are those of the tree. A path that
  is not a listable directory yields nothing. The first component of the result is the
  node as the walk leaves it (its entries in the order visited, the pruned directories
  untouched at the end).
\<close>

function walk :: "string \<Rightarrow> string list \<Rightarrow> fsnode \<Rightarrow> walk_state \<Rightarrow> fsnode \<times> walk_state"
  and walk_dirs ::
    "string \<Rightarrow> string list \<Rightarrow> (string \<times> fsnode) list \<Rightarrow> walk_state \<Rightarrow> (string \<times> fsnode) list \<times> walk_state"
where
  "walk dirpath rel_dir (Dir entries) state =
     (let dirnames = filter (\<lambda>d. \<not> hidden d) (sort_key fst (dirs entries));
          pruned = filter hidden (sort_key fst (dirs entries));
          filenames = sort_key fst (nondirs entries);
          (kept, state) = visit_files dirpath rel_dir filenames state;
          (walked, state) = walk_dirs dirpath rel_dir dirnames state
      in (Dir (map (\<lambda>(name, a). (name, File a)) kept @ walked @ pruned), state))"
| "walk dirpath rel_dir (File a) state = (File a, state)"
| "walk dirpath rel_dir Unlisted state = (Unlisted, state)"
| "walk_dirs dirpath rel_dir [] state = ([], state)"
| "walk_dirs dirpath rel_dir ((name, node) # dirnames) state =
     (let (node', state) = walk (path_join dirpath name) (rel_dir @ [name]) node state;
          (walked, state) = walk_dirs dirpath rel_dir dirnames state
      in ((name, node') # walked, state))"
  by pat_completeness auto

text \<open>The measure for the termination of the walk.\<close>

definition weight :: "(string \<times> fsnode) list \<Rightarrow> nat" where
  "weight entries = sum_list (map (\<lambda>e. Suc (size (snd e))) entries)"

lemma weight_sort_key: "weight (sort_key f entries) = weight entries"
proof -
  have "mset (map (\<lambda>e. Suc (size (snd e))) (sort_key f entries)) =
        mset (map (\<lambda>e. Suc (size (snd e))) entries)"
    by simp
  then show ?thesis unfolding weight_def by (metis sum_mset_sum_list)
qed

lemma weight_filter: "weight (filter P entries) \<le> weight entries"
  unfolding weight_def by (rule sum_list_filter_le_nat)

lemma weight_size: "weight entries < size (Dir entries)"
  by (induction entries) (auto simp: weight_def)

lemma weight_dirnames: "weight (filter P (sort_key fst (dirs entries))) < size (Dir entries)"
proof -
  have "weight (filter P (sort_key fst (dirs entries))) \<le> weight (dirs entries)"
    using weight_filter [of P "sort_key fst (dirs entries)"] by (simp add: weight_sort_key)
  also have "\<dots> \<le> weight entries" unfolding dirs_def by (rule weight_filter)
  finally show ?thesis using weight_size [of entries] by simp
qed

termination walk
  apply (relation "measure (\<lambda>x. case x of
          Inl (dirpath, rel_dir, node, state) \<Rightarrow> 2 * size node
        | Inr (dirpath, rel_dir, dirnames, state) \<Rightarrow> 2 * weight dirnames + 1)")
  apply simp
  subgoal for dirpath rel_dir entries state
    using weight_dirnames [of "\<lambda>d. \<not> hidden d" entries] by simp
  apply (simp_all add: weight_def)
  done

text \<open>
  \<^verbatim>\<open>clean_directory(root_path, stats)\<close>. The file system is given by what it holds at
  \<^verbatim>\<open>root_path\<close>: \<open>None\<close> when the path does not exist. The files on disk when the
  run starts are those of this tree. The result is the sorted \<^verbatim>\<open>file_data\<close>, the
  updated \<^verbatim>\<open>stats\<close> and what the file system holds at \<^verbatim>\<open>root_path\<close> afterwards: a
  further run starts from the files of that tree, so a link to a file that this run
  removed no longer resolves in it.
\<close>

definition clean_directory ::
  "string \<Rightarrow> fsnode option \<Rightarrow> FileStats \<Rightarrow> file_info list \<times> FileStats \<times> fsnode option" where
  "clean_directory root_path root stats =
     (case root of
        None \<Rightarrow> ([], stats, None)
      | Some node \<Rightarrow>
          (case walk root_path [] node ([], stats, file_paths [] node) of
             (node', file_data, stats, on_disk) \<Rightarrow>
               (sort_key relative_path file_data, stats, Some node')))"

section \<open>The hierarchy deriver\<close>

text \<open>The inner loop of \<^verbatim>\<open>get_directory_structure\<close> over the parts of one relative path.\<close>

fun add_each_level :: "string \<Rightarrow> string list \<Rightarrow> string set \<Rightarrow> string set" where
  "add_each_level current_path [] directories = directories"
| "add_each_level current_path (part # parts) directories =
     (let current_path = (if current_path \<noteq> [] then path_join current_path part else part)
      in add_each_level current_path parts (insert (dirname current_path) directories))"

definition get_directory_structure :: "file_info list \<Rightarrow> dir_info list" where
  "get_directory_structure file_data =
     (let directories =
            fold (\<lambda>file_info. add_each_level [] (split_sep (relative_path file_info))) file_data {};
          directories = directories - {[]};
          dir_list = sorted_list_of_set directories
      in map (\<lambda>dir_path.
               \<lparr>directory_path = dir_path,
                depth = (if dir_path \<noteq> [] then int (length (split_sep dir_path)) else 0),
                parent_directory = (if dir_path \<noteq> [] then dirname dir_path else []),
                directory_name = (if dir_path \<noteq> [] then basename dir_path else [])\<rparr>)
             dir_list)"

section \<open>The entry point\<close>

text \<open>
  \<^verbatim>\<open>main\<close>. The two CSV writers are external: each either writes its file or raises,
  and an exception they raise is not caught, so it ends the process with a non-zero
  status. The two parameters say which exception, if any, each writer raises. The result
  is the exception that ended the run or the inventories and statistics of the summary,
  and the file system at the root afterwards.
\<close>

record run_summary =
  files_inventory :: "file_info list"
  dirs_inventory :: "dir_info list"
  summary_stats :: FileStats

definition main ::
  "string \<Rightarrow> fsnode option \<Rightarrow> string option \<Rightarrow> string option
     \<Rightarrow> (string + run_summary) \<times> fsnode option" where
  "main ROOT_DIRECTORY root save_to_csv_raises save_directory_structure_raises =
     (let stats = FileStats_init
      in case clean_directory ROOT_DIRECTORY root stats of (file_data, stats, root') \<Rightarrow>
           let dir_data = get_directory_structure file_data
           in (case save_to_csv_raises of
                 Some e \<Rightarrow> (Inl e, root')
               | None \<Rightarrow>
                   (case save_directory_structure_raises of
                      Some e \<Rightarrow> (Inl e, root')
                    | None \<Rightarrow>
                        (Inr \<lparr>files_inventory = file_data, dirs_inventory = dir_data,
                              summary_stats = stats\<rparr>, root'))))"

text \<open>The exit status of the process: 1 after an uncaught exception, 0 otherwise.\<close>

definition exit_status :: "string + run_summary \<Rightarrow> int" where
  "exit_status outcome = (case outcome of Inl e \<Rightarrow> 1 | Inr summary \<Rightarrow> 0)"

section \<open>Auxiliary notions\<close>

text \<open>A non-empty list of path segments, each non-empty and free of separators.\<close>

definition segs_ok :: "string list \<Rightarrow> bool" where
  "segs_ok ss \<longleftrightarrow> ss \<noteq> [] \<and> [] \<notin> set ss \<and> sep \<notin> \<Union> (set ` set ss)"

text \<open>
  The values that \<^verbatim>\<open>current_path\<close> takes in \<^verbatim>\<open>get_directory_structure\<close>, and the
  values that are added to \<^verbatim>\<open>directories\<close>.
\<close>

definition cur_ok :: "string \<Rightarrow> bool" where
  "cur_ok c \<longleftrightarrow> c = [] \<or> (\<exists>ss. segs_ok ss \<and> (c = sep_join ss \<or> c = sep_join ss @ [sep]))"

definition dir_ok :: "string \<Rightarrow> bool" where
  "dir_ok d \<longleftrightarrow> d = [] \<or> (\<exists>ss. segs_ok ss \<and> d = sep_join ss)"

text \<open>The set \<^verbatim>\<open>directories\<close> after the first loop of \<^verbatim>\<open>get_directory_structure\<close>.\<close>

definition all_directories :: "file_info list \<Rightarrow> string set \<Rightarrow> string set" where
  "all_directories file_data D =
     fold (\<lambda>file_info. add_each_level [] (split_sep (relative_path file_info))) file_data D"

text \<open>The joined prefixes of the segments of a path, the full path excluded.\<close>

definition dir_prefixes :: "string \<Rightarrow> string set" where
  "dir_prefixes rel_path =
     (\<lambda>k. sep_join (take k (split_sep rel_path))) ` {..<length (split_sep rel_path)}"

text \<open>
  The files that a walk of a node has to visit: the entries that are not directories, in
  the node and in every directory reached through directory names that do not start
  with a dot. Nothing is visited below an entry that \<^verbatim>\<open>os.walk\<close> does not list.
\<close>

fun count_visited :: "fsnode \<Rightarrow> nat"
  and count_entries :: "(string \<times> fsnode) list \<Rightarrow> nat"
where
  "count_visited (Dir entries) = count_entries entries"
| "count_visited (File a) = 0"
| "count_visited Unlisted = 0"
| "count_entries [] = 0"
| "count_entries ((name, File a) # entries) = 1 + count_entries entries"
| "count_entries ((name, Dir sub) # entries) =
     (if startswith name ''.'' then 0 else count_entries sub) + count_entries entries"
| "count_entries ((name, Unlisted) # entries) = count_entries entries"

text \<open>
  A name that a directory listing can hold, as far as the walk depends on it: not empty
  and free of separators. A node is well formed when, in every directory of it, the names
  are of this kind and no name occurs twice. Every file system keeps these two
  invariants.
\<close>

definition good_name :: "string \<Rightarrow> bool" where
  "good_name name \<longleftrightarrow> name \<noteq> [] \<and> sep \<notin> set name"

fun wf_node :: "fsnode \<Rightarrow> bool" where
  "wf_node (Dir entries) =
     (distinct (map fst entries)
      \<and> list_all (\<lambda>(name, node). good_name name \<and> wf_node node) entries)"
| "wf_node (File a) = True"
| "wf_node Unlisted = True"

definition wf_root :: "fsnode option \<Rightarrow> bool" where
  "wf_root root = (case root of None \<Rightarrow> True | Some node \<Rightarrow> wf_node node)"

text \<open>
  The files counted in \<^verbatim>\<open>total_files\<close> and in none of the three buckets.
\<close>

definition unaccounted :: "walk_state \<Rightarrow> int" where
  "unaccounted state =
     total_files (fst (snd state)) - cleaned_files (fst (snd state)) - int (length (fst state))
       - int (length (errors (fst (snd state))))"

text \<open>
  A state that the walk reaches from another one: records and error entries are only
  ever appended. \<open>added\<close> is the list of the records appended in between.
\<close>

definition grows :: "walk_state \<Rightarrow> walk_state \<Rightarrow> bool" where
  "grows state state' \<longleftrightarrow>
     (\<exists>new. fst state' = fst state @ new)
     \<and> (\<exists>es. errors (fst (snd state')) = errors (fst (snd state)) @ es)"

definition added :: "walk_state \<Rightarrow> walk_state \<Rightarrow> file_info list" where
  "added state state' = drop (length (fst state)) (fst state')"









text \<open>
  A regular file of the given size that can be read and removed, for the examples.
\<close>

definition regular :: "int \<Rightarrow> fsnode" where
  "regular n =
     File \<lparr>os_stat = Inr \<lparr>st_size = n, st_mtime = 1700000000\<rparr>, os_remove = None,
           link_chain = [], record_error = None\<rparr>"

section \<open>Facts about the string operations\<close>

lemma startswith_append: "startswith (p @ s) p"
  by (simp add: startswith_def)

lemma startswith_iff: "startswith s p \<longleftrightarrow> (\<exists>r. s = p @ r)"
proof
  assume "startswith s p"
  then have "s = p @ drop (length p) s"
    by (metis append_take_drop_id startswith_def)
  then show "\<exists>r. s = p @ r" ..
next
  assume "\<exists>r. s = p @ r"
  then show "startswith s p"
    by (auto simp: startswith_def)
qed

lemma contains_iff: "contains sub s \<longleftrightarrow> (\<exists>pre suf. s = pre @ sub @ suf)"
proof (induction s)
  case Nil
  show ?case by auto
next
  case (Cons c cs)
  show ?case
  proof
    assume "contains sub (c # cs)"
    then consider "startswith (c # cs) sub" | "contains sub cs" by auto
    then show "\<exists>pre suf. c # cs = pre @ sub @ suf"
    proof cases
      case 1
      then obtain r where "c # cs = sub @ r" by (auto simp: startswith_iff)
      then have "c # cs = [] @ sub @ r" by simp
      then show ?thesis by blast
    next
      case 2
      with Cons.IH obtain pre suf where "cs = pre @ sub @ suf" by blast
      then have "c # cs = (c # pre) @ sub @ suf" by simp
      then show ?thesis by blast
    qed
  next
    assume "\<exists>pre suf. c # cs = pre @ sub @ suf"
    then obtain pre suf where eq: "c # cs = pre @ sub @ suf" by blast
    show "contains sub (c # cs)"
    proof (cases pre)
      case Nil
      with eq have "startswith (c # cs) sub" by (simp add: startswith_append)
      then show ?thesis by simp
    next
      case (Cons d pre')
      with eq have "cs = pre' @ sub @ suf" by simp
      with Cons.IH have "contains sub cs" by blast
      then show ?thesis by simp
    qed
  qed
qed

lemma CLEANUP_FILES_dot: "f \<in> CLEANUP_FILES \<Longrightarrow> f \<noteq> ''Thumbs.db'' \<Longrightarrow> startswith f ''.''"
  unfolding CLEANUP_FILES_def startswith_def by auto

section \<open>Claims about the classifier\<close>

text \<open>
  C2 (as amended). The denylist rule is not dead code: the denylist holds one name that
  does not start with a dot, \<^verbatim>\<open>Thumbs.db\<close>. For every name and full path the
  classifier returns true exactly when the classifier without the denylist check
  returns true or the name is \<^verbatim>\<open>Thumbs.db\<close>; so the two agree on every name
  other than \<^verbatim>\<open>Thumbs.db\<close>, and that name is junk under any path.
\<close>

theorem should_clean_file_denylist_only_thumbs:
  "should_clean_file name path =
     (should_clean_file_without_denylist name path \<or> name = ''Thumbs.db'')"
proof (cases "name = ''Thumbs.db''")
  case True
  then show ?thesis
    by (simp add: should_clean_file_def CLEANUP_FILES_def)
next
  case False
  then show ?thesis
    using CLEANUP_FILES_dot [of name]
    by (auto simp: should_clean_file_def should_clean_file_without_denylist_def)
qed

text \<open>
  C2, the claim as stated, fails: for the name \<^verbatim>\<open>Thumbs.db\<close> under
  \<^verbatim>\<open>/path/to/scan\<close> the classifier answers true, and without the denylist check it
  answers false.
\<close>

theorem denylist_dead_code_counterexample:
  "should_clean_file ''Thumbs.db'' ''/path/to/scan/Thumbs.db'' \<noteq>
   should_clean_file_without_denylist ''Thumbs.db'' ''/path/to/scan/Thumbs.db''"
  by (simp add: should_clean_file_def should_clean_file_without_denylist_def
      CLEANUP_FILES_def startswith_def)

text \<open>
  C9. The \<^verbatim>\<open>.AppleDouble\<close> rule is a substring match on the full path: whenever the
  string \<^verbatim>\<open>.AppleDouble\<close> occurs anywhere in the full path, whatever precedes and
  follows it and whatever the name is, the classifier returns true.
\<close>

theorem should_clean_file_AppleDouble_substring:
  "path = pre @ ''.AppleDouble'' @ suf \<Longrightarrow> should_clean_file name path"
proof -
  assume "path = pre @ ''.AppleDouble'' @ suf"
  then have "contains ''.AppleDouble'' path"
    unfolding contains_iff by blast
  then show ?thesis
    by (simp add: should_clean_file_def)
qed

theorem should_clean_file_AppleDouble_substring_witness:
  "''/data/backup.AppleDoubleOld/photo.jpg'' = ''/data/backup'' @ ''.AppleDouble'' @ ''Old/photo.jpg''
   \<and> should_clean_file ''photo.jpg'' ''/data/backup.AppleDoubleOld/photo.jpg''"
  using should_clean_file_AppleDouble_substring
    [of "''/data/backup.AppleDoubleOld/photo.jpg''" "''/data/backup''" "''Old/photo.jpg''" "''photo.jpg''"]
  by simp

section \<open>Facts about paths\<close>

lemma segs_okD: "segs_ok ss \<Longrightarrow> s \<in> set ss \<Longrightarrow> s \<noteq> [] \<and> sep \<notin> set s"
  by (auto simp: segs_ok_def)

lemma segs_ok_single: "p \<noteq> [] \<Longrightarrow> sep \<notin> set p \<Longrightarrow> segs_ok [p]"
  by (auto simp: segs_ok_def)

lemma segs_ok_snoc: "segs_ok ss \<Longrightarrow> p \<noteq> [] \<Longrightarrow> sep \<notin> set p \<Longrightarrow> segs_ok (ss @ [p])"
  by (auto simp: segs_ok_def)

lemma segs_ok_last: "segs_ok ss \<Longrightarrow> last ss \<noteq> [] \<and> sep \<notin> set (last ss)"
  by (metis last_in_set segs_okD segs_ok_def)

lemma segs_ok_butlast: "segs_ok ss \<Longrightarrow> butlast ss \<noteq> [] \<Longrightarrow> segs_ok (butlast ss)"
  unfolding segs_ok_def by (auto dest: in_set_butlastD)

lemma hd_nosep: "p \<noteq> [] \<Longrightarrow> sep \<notin> set p \<Longrightarrow> hd p \<noteq> sep"
  by (metis hd_in_set)

lemma last_nosep: "p \<noteq> [] \<Longrightarrow> sep \<notin> set p \<Longrightarrow> last p \<noteq> sep"
  by (metis last_in_set)

lemma sep_join_snoc: "ss \<noteq> [] \<Longrightarrow> sep_join (ss @ [p]) = sep_join ss @ sep # p"
  by (induction ss rule: sep_join.induct) auto

lemma sep_join_Cons: "ss \<noteq> [] \<Longrightarrow> sep_join (s # ss) = s @ sep # sep_join ss"
  by (cases ss) auto

lemma sep_join_nonempty: "segs_ok ss \<Longrightarrow> sep_join ss \<noteq> []"
  by (induction ss rule: sep_join.induct) (auto simp: segs_ok_def)

lemma sep_join_last: "segs_ok ss \<Longrightarrow> last (sep_join ss) \<noteq> sep"
proof (induction ss rule: sep_join.induct)
  case 1
  then show ?case by (simp add: segs_ok_def)
next
  case (2 x)
  then show ?case using segs_okD [of "[x]" x] by (simp add: last_nosep)
next
  case (3 x y ys)
  then have "segs_ok (y # ys)" by (auto simp: segs_ok_def)
  with 3 have "last (sep_join (y # ys)) \<noteq> sep" and "sep_join (y # ys) \<noteq> []"
    by (auto simp: sep_join_nonempty)
  then show ?case by simp
qed

lemma sep_join_hd: "segs_ok ss \<Longrightarrow> hd (sep_join ss) \<noteq> sep"
proof -
  assume ok: "segs_ok ss"
  then obtain s rest where ss: "ss = s # rest" by (cases ss) (auto simp: segs_ok_def)
  with ok have s: "s \<noteq> []" "sep \<notin> set s" by (auto simp: segs_ok_def)
  have "hd (sep_join (s # rest)) = hd s" using s(1) by (cases rest) auto
  then show ?thesis using hd_nosep [OF s] ss by simp
qed

lemma rfind_sep1_nosep: "sep \<notin> set p \<Longrightarrow> rfind_sep1 p = 0"
proof -
  assume "sep \<notin> set p"
  then have eq: "takeWhile (\<lambda>c. c \<noteq> sep) (rev p) = rev p"
    by (auto simp: takeWhile_eq_all_conv)
  show ?thesis unfolding rfind_sep1_def eq by simp
qed

lemma rfind_sep1_append: "sep \<notin> set p \<Longrightarrow> rfind_sep1 (x @ sep # p) = Suc (length x)"
proof -
  assume a: "sep \<notin> set p"
  have "takeWhile (\<lambda>c. c \<noteq> sep) (rev p @ sep # rev x) = takeWhile (\<lambda>c. c \<noteq> sep) (rev p)"
    by (rule takeWhile_tail) simp
  also have "\<dots> = rev p" using a by (auto simp: takeWhile_eq_all_conv)
  finally have eq: "takeWhile (\<lambda>c. c \<noteq> sep) (rev p @ sep # rev x) = rev p" .
  show ?thesis unfolding rfind_sep1_def by (simp add: eq)
qed

lemma rstrip_sep_snoc: "x \<noteq> [] \<Longrightarrow> last x \<noteq> sep \<Longrightarrow> rstrip_sep (x @ [sep]) = x"
proof -
  assume "x \<noteq> []" and "last x \<noteq> sep"
  then have "dropWhile (\<lambda>c. c = sep) (rev x) = rev x"
    by (cases "rev x") (auto simp: last_rev hd_rev[symmetric] simp del: rev_is_Nil_conv)
  then show ?thesis by (simp add: rstrip_sep_def)
qed

lemma dirname_nosep: "sep \<notin> set p \<Longrightarrow> dirname p = []"
  by (simp add: dirname_def rfind_sep1_nosep)

lemma basename_nosep: "sep \<notin> set p \<Longrightarrow> basename p = p"
  by (simp add: basename_def rfind_sep1_nosep)

lemma not_all_sep: "x \<noteq> [] \<Longrightarrow> last x \<noteq> sep \<Longrightarrow> x @ [sep] \<noteq> replicate n sep"
proof
  assume a: "x \<noteq> []" "last x \<noteq> sep" and e: "x @ [sep] = replicate n sep"
  from a have "last x \<in> set (x @ [sep])" by simp
  with e have "last x \<in> set (replicate n sep)" by simp
  with a show False by auto
qed

lemma dirname_append:
  assumes "sep \<notin> set p" "x \<noteq> []" "last x \<noteq> sep"
  shows "dirname (x @ sep # p) = x"
proof -
  have h: "take (rfind_sep1 (x @ sep # p)) (x @ sep # p) = x @ [sep]"
    using assms(1) by (simp add: rfind_sep1_append)
  show ?thesis
    unfolding dirname_def Let_def h
    using assms(2,3) not_all_sep [OF assms(2,3), of "Suc (length x)"]
    by (simp add: rstrip_sep_snoc)
qed

lemma basename_append: "sep \<notin> set p \<Longrightarrow> basename (x @ sep # p) = p"
  by (simp add: basename_def rfind_sep1_append)

lemma dirname_trailing:
  assumes "x \<noteq> []" "last x \<noteq> sep"
  shows "dirname (x @ [sep]) = x"
  using dirname_append [of "[]" x] assms by simp

lemma startswith_sep_iff: "startswith p [sep] \<longleftrightarrow> p \<noteq> [] \<and> hd p = sep"
  by (cases p) (auto simp: startswith_def)

lemma endswith_sep_iff: "endswith x [sep] \<longleftrightarrow> x \<noteq> [] \<and> last x = sep"
  by (cases x rule: rev_cases) (auto simp: endswith_def)

lemma startswith_sep_nosep: "sep \<notin> set p \<Longrightarrow> \<not> startswith p [sep]"
  by (metis hd_nosep startswith_sep_iff)

lemma path_join_plain:
  "x \<noteq> [] \<Longrightarrow> last x \<noteq> sep \<Longrightarrow> sep \<notin> set p \<Longrightarrow> path_join x p = x @ sep # p"
  by (simp add: path_join_def startswith_sep_nosep endswith_sep_iff)

lemma path_join_trailing:
  "sep \<notin> set p \<Longrightarrow> path_join (x @ [sep]) p = x @ sep # p"
  by (simp add: path_join_def startswith_sep_nosep endswith_sep_iff)

lemma path_join_empty: "sep \<notin> set p \<Longrightarrow> path_join [] p = p"
  by (simp add: path_join_def startswith_sep_nosep)

lemma dirname_sep_join: "segs_ok ss \<Longrightarrow> dirname (sep_join ss) = sep_join (butlast ss)"
proof (cases "butlast ss = []")
  case True
  assume ok: "segs_ok ss"
  then have "ss = [last ss]" using True
    by (metis append_butlast_last_id append_Nil segs_ok_def)
  then have "sep_join ss = last ss" by (metis sep_join.simps(2))
  then show ?thesis using True segs_ok_last [OF ok] by (simp add: dirname_nosep)
next
  case False
  assume ok: "segs_ok ss"
  then have ss: "ss = butlast ss @ [last ss]" by (simp add: segs_ok_def)
  have okb: "segs_ok (butlast ss)" using ok False by (rule segs_ok_butlast)
  have "sep_join ss = sep_join (butlast ss) @ sep # last ss"
    using sep_join_snoc [OF False, of "last ss"] ss by simp
  then show ?thesis
    using segs_ok_last [OF ok] sep_join_nonempty [OF okb] sep_join_last [OF okb]
    by (simp add: dirname_append)
qed

lemma basename_sep_join: "segs_ok ss \<Longrightarrow> basename (sep_join ss) = last ss"
proof (cases "butlast ss = []")
  case True
  assume ok: "segs_ok ss"
  then have "ss = [last ss]" using True
    by (metis append_butlast_last_id append_Nil segs_ok_def)
  then have "sep_join ss = last ss" by (metis sep_join.simps(2))
  then show ?thesis using segs_ok_last [OF ok] by (simp add: basename_nosep)
next
  case False
  assume ok: "segs_ok ss"
  then have ss: "ss = butlast ss @ [last ss]" by (simp add: segs_ok_def)
  have "sep_join ss = sep_join (butlast ss) @ sep # last ss"
    using sep_join_snoc [OF False, of "last ss"] ss by simp
  then show ?thesis
    using segs_ok_last [OF ok] by (simp add: basename_append)
qed

lemma split_sep_nonempty: "split_sep s \<noteq> []"
  by (induction s) auto

lemma split_sep_nosep: "p \<in> set (split_sep s) \<Longrightarrow> sep \<notin> set p"
proof (induction s arbitrary: p)
  case Nil
  then show ?case by simp
next
  case (Cons c cs)
  obtain w ws where sp: "split_sep cs = w # ws"
    using split_sep_nonempty [of cs] by (cases "split_sep cs") auto
  show ?case
  proof (cases "c = sep")
    case True
    with Cons.prems have "p = [] \<or> p \<in> set (split_sep cs)" by simp
    with Cons.IH show ?thesis by auto
  next
    case False
    with Cons.prems sp have "p = c # w \<or> p \<in> set ws" by simp
    moreover have "sep \<notin> set w" using Cons.IH [of w] sp by simp
    moreover have "p \<in> set ws \<Longrightarrow> sep \<notin> set p" using Cons.IH [of p] sp by simp
    ultimately show ?thesis using False by auto
  qed
qed

lemma split_sep_nosep_id: "sep \<notin> set s \<Longrightarrow> split_sep s = [s]"
  by (induction s) auto

lemma split_sep_append: "sep \<notin> set s \<Longrightarrow> split_sep (s @ sep # t) = s # split_sep t"
  by (induction s) auto

lemma split_sep_sep_join: "segs_ok ss \<Longrightarrow> split_sep (sep_join ss) = ss"
proof (induction ss rule: sep_join.induct)
  case 1
  then show ?case by (simp add: segs_ok_def)
next
  case (2 x)
  then show ?case by (simp add: segs_ok_def split_sep_nosep_id)
next
  case (3 x y ys)
  then have "segs_ok (y # ys)" and "sep \<notin> set x" by (auto simp: segs_ok_def)
  with 3 show ?case by (simp add: split_sep_append)
qed

section \<open>Facts about the hierarchy deriver\<close>

lemma cur_ok_step:
  assumes "cur_ok c" "sep \<notin> set part"
  shows "cur_ok (if c \<noteq> [] then path_join c part else part)"
proof (cases "c = []")
  case True
  show ?thesis
  proof (cases "part = []")
    case True
    with \<open>c = []\<close> show ?thesis by (simp add: cur_ok_def)
  next
    case False
    then have "segs_ok [part]" using assms(2) by (rule segs_ok_single)
    moreover have "part = sep_join [part]" by simp
    ultimately show ?thesis using \<open>c = []\<close> unfolding cur_ok_def by (metis (full_types))
  qed
next
  case False
  with assms(1) obtain ss where ok: "segs_ok ss"
    and c: "c = sep_join ss \<or> c = sep_join ss @ [sep]"
    by (auto simp: cur_ok_def)
  have ne: "ss \<noteq> []" using ok by (simp add: segs_ok_def)
  have j: "path_join c part = sep_join ss @ sep # part"
    using c
  proof
    assume "c = sep_join ss"
    then show ?thesis
      using path_join_plain [OF sep_join_nonempty [OF ok] sep_join_last [OF ok] assms(2)]
      by simp
  next
    assume "c = sep_join ss @ [sep]"
    then show ?thesis using path_join_trailing [OF assms(2), of "sep_join ss"] by simp
  qed
  show ?thesis
  proof (cases "part = []")
    case True
    with j ok False show ?thesis unfolding cur_ok_def by auto
  next
    case np: False
    have "segs_ok (ss @ [part])" using ok np assms(2) by (rule segs_ok_snoc)
    moreover have "path_join c part = sep_join (ss @ [part])"
      using j sep_join_snoc [OF ne, of part] by simp
    ultimately show ?thesis using False unfolding cur_ok_def by auto
  qed
qed

lemma dirname_cur_ok:
  assumes "cur_ok c"
  shows "dir_ok (dirname c)"
proof (cases "c = []")
  case True
  then show ?thesis by (simp add: dir_ok_def dirname_nosep)
next
  case False
  with assms obtain ss where ok: "segs_ok ss"
    and c: "c = sep_join ss \<or> c = sep_join ss @ [sep]"
    by (auto simp: cur_ok_def)
  from c show ?thesis
  proof
    assume "c = sep_join ss"
    then have d: "dirname c = sep_join (butlast ss)" using ok by (simp add: dirname_sep_join)
    show ?thesis
    proof (cases "butlast ss = []")
      case True
      with d show ?thesis by (simp add: dir_ok_def)
    next
      case False
      with ok have "segs_ok (butlast ss)" by (rule segs_ok_butlast)
      with d show ?thesis unfolding dir_ok_def by blast
    qed
  next
    assume "c = sep_join ss @ [sep]"
    then have "dirname c = sep_join ss"
      using dirname_trailing [OF sep_join_nonempty [OF ok] sep_join_last [OF ok]] by simp
    with ok show ?thesis unfolding dir_ok_def by blast
  qed
qed

lemma add_each_level_ok:
  "cur_ok c \<Longrightarrow> \<forall>p\<in>set parts. sep \<notin> set p \<Longrightarrow> \<forall>d\<in>D. dir_ok d
   \<Longrightarrow> \<forall>d\<in>add_each_level c parts D. dir_ok d"
proof (induction parts arbitrary: c D)
  case Nil
  then show ?case by simp
next
  case (Cons part parts)
  let ?c = "if c \<noteq> [] then path_join c part else part"
  have c': "cur_ok ?c" using Cons.prems(1,2) by (intro cur_ok_step) auto
  have D': "\<forall>e\<in>insert (dirname ?c) D. dir_ok e"
    using dirname_cur_ok [OF c'] Cons.prems(3) by auto
  have P': "\<forall>p\<in>set parts. sep \<notin> set p" using Cons.prems(2) by simp
  show ?case using Cons.IH [OF c' P' D'] by (simp add: Let_def)
qed

lemma add_each_level_finite: "finite D \<Longrightarrow> finite (add_each_level c parts D)"
  by (induction parts arbitrary: c D) (auto simp: Let_def)

lemma all_directories_finite: "finite D \<Longrightarrow> finite (all_directories fd D)"
  unfolding all_directories_def
  by (induction fd arbitrary: D) (auto simp: add_each_level_finite)

lemma all_directories_ok:
  "\<forall>d\<in>D. dir_ok d \<Longrightarrow> \<forall>d\<in>all_directories fd D. dir_ok d"
  unfolding all_directories_def
proof (induction fd arbitrary: D)
  case Nil
  then show ?case by simp
next
  case (Cons r fd)
  have "cur_ok []" by (simp add: cur_ok_def)
  moreover have "\<forall>p\<in>set (split_sep (relative_path r)). sep \<notin> set p"
    by (simp add: split_sep_nosep)
  ultimately have "\<forall>e\<in>add_each_level [] (split_sep (relative_path r)) D. dir_ok e"
    using Cons.prems by (rule add_each_level_ok)
  then show ?case using Cons.IH by simp
qed

lemma get_directory_structure_paths:
  "map directory_path (get_directory_structure fd) = sorted_list_of_set (all_directories fd {} - {[]})"
  by (simp add: get_directory_structure_def all_directories_def Let_def comp_def)

lemma set_directory_paths:
  "set (map directory_path (get_directory_structure fd)) = all_directories fd {} - {[]}"
  unfolding get_directory_structure_paths
  by (simp add: all_directories_finite)

lemma distinct_directory_paths:
  "distinct (map directory_path (get_directory_structure fd))"
  unfolding get_directory_structure_paths by simp

lemma dir_info_fields:
  assumes "d \<in> set (get_directory_structure fd)"
  shows "\<exists>ss. segs_ok ss \<and> directory_path d = sep_join ss \<and> depth d = int (length ss)
           \<and> parent_directory d = sep_join (butlast ss) \<and> directory_name d = last ss"
proof -
  let ?p = "directory_path d"
  from assms have p: "?p \<in> all_directories fd {} - {[]}"
    using set_directory_paths [of fd] by (metis image_eqI set_map)
  then have "dir_ok ?p" using all_directories_ok [of "{}" fd] by simp
  with p obtain ss where ok: "segs_ok ss" and eq: "?p = sep_join ss"
    by (auto simp: dir_ok_def)
  have ne: "?p \<noteq> []" using p by simp
  from assms have "depth d = int (length (split_sep ?p))"
    and "parent_directory d = dirname ?p" and "directory_name d = basename ?p"
    using ne by (auto simp: get_directory_structure_def Let_def)
  with ok eq show ?thesis
    by (auto simp: split_sep_sep_join dirname_sep_join basename_sep_join)
qed

lemma segs_ok_take: "[] \<notin> set parts \<Longrightarrow> \<forall>p\<in>set parts. sep \<notin> set p \<Longrightarrow> 0 < k \<Longrightarrow> parts \<noteq> []
  \<Longrightarrow> segs_ok (take k parts)"
  unfolding segs_ok_def by (auto dest: in_set_takeD)

lemma add_each_level_exact:
  assumes "[] \<notin> set parts" "\<forall>p\<in>set parts. sep \<notin> set p" "done = [] \<or> segs_ok done"
  shows "add_each_level (sep_join done) parts D =
           D \<union> (\<lambda>k. sep_join (done @ take k parts)) ` {..<length parts}"
  using assms
proof (induction parts arbitrary: "done" D)
  case Nil
  then show ?case by simp
next
  case (Cons part parts)
  let ?c = "if sep_join done \<noteq> [] then path_join (sep_join done) part else part"
  have part: "part \<noteq> []" "sep \<notin> set part" using Cons.prems(1,2) by auto
  have c: "?c = sep_join (done @ [part])"
  proof (cases "done = []")
    case True
    then show ?thesis by simp
  next
    case False
    with Cons.prems(3) have ok: "segs_ok done" by simp
    show ?thesis
      using sep_join_nonempty [OF ok]
        path_join_plain [OF sep_join_nonempty [OF ok] sep_join_last [OF ok] part(2)]
        sep_join_snoc [OF False, of part]
      by simp
  qed
  have ok': "segs_ok (done @ [part])"
    using Cons.prems(3) part by (auto simp: segs_ok_def)
  have d: "dirname ?c = sep_join done"
    unfolding c using dirname_sep_join [OF ok'] by simp
  have "add_each_level (sep_join done) (part # parts) D =
          add_each_level (sep_join (done @ [part])) parts (insert (sep_join done) D)"
    using c d by (simp add: Let_def)
  also have "\<dots> = insert (sep_join done) D \<union>
          (\<lambda>k. sep_join ((done @ [part]) @ take k parts)) ` {..<length parts}"
    using Cons.prems(1,2) ok' by (intro Cons.IH) auto
  also have "\<dots> = D \<union> (\<lambda>k. sep_join (done @ take k (part # parts))) ` {..<length (part # parts)}"
    by (simp add: lessThan_Suc_eq_insert_0 image_image)
  finally show ?case .
qed

lemma all_directories_exact:
  assumes "\<forall>r\<in>set fd. [] \<notin> set (split_sep (relative_path r))"
  shows "all_directories fd D = D \<union> (\<Union>r\<in>set fd. dir_prefixes (relative_path r))"
  using assms
proof (induction fd arbitrary: D)
  case Nil
  then show ?case by (simp add: all_directories_def)
next
  case (Cons r fd)
  let ?parts = "split_sep (relative_path r)"
  have "add_each_level (sep_join []) ?parts D = D \<union> (\<lambda>k. sep_join ([] @ take k ?parts)) ` {..<length ?parts}"
    using Cons.prems by (intro add_each_level_exact) (auto dest: split_sep_nosep)
  then have 1: "add_each_level [] ?parts D = D \<union> dir_prefixes (relative_path r)"
    by (simp add: dir_prefixes_def)
  have "all_directories (r # fd) D = all_directories fd (add_each_level [] ?parts D)"
    by (simp add: all_directories_def)
  also have "\<dots> = add_each_level [] ?parts D \<union> (\<Union>r\<in>set fd. dir_prefixes (relative_path r))"
    using Cons.prems by (intro Cons.IH) simp
  finally show ?case using 1 by auto
qed

lemma dir_prefixes_nonempty:
  assumes "[] \<notin> set (split_sep p)"
  shows "dir_prefixes p - {[]} =
           {sep_join (take k (split_sep p)) | k. 0 < k \<and> k < length (split_sep p)}"
proof -
  have z: "sep_join (take k (split_sep p)) \<noteq> []" if "0 < k" for k
  proof -
    have "segs_ok (take k (split_sep p))"
      using assms that split_sep_nonempty [of p]
      by (intro segs_ok_take) (auto dest: split_sep_nosep)
    then show ?thesis by (rule sep_join_nonempty)
  qed
  show ?thesis
  proof (intro set_eqI iffI)
    fix x assume "x \<in> dir_prefixes p - {[]}"
    then obtain k where k: "k < length (split_sep p)" "x = sep_join (take k (split_sep p))" "x \<noteq> []"
      by (auto simp: dir_prefixes_def)
    then have "0 < k" by (cases k) auto
    with k show "x \<in> {sep_join (take k (split_sep p)) | k. 0 < k \<and> k < length (split_sep p)}"
      by blast
  next
    fix x assume "x \<in> {sep_join (take k (split_sep p)) | k. 0 < k \<and> k < length (split_sep p)}"
    then obtain k where "0 < k" "k < length (split_sep p)" "x = sep_join (take k (split_sep p))"
      by blast
    then show "x \<in> dir_prefixes p - {[]}"
      using z [of k] by (auto simp: dir_prefixes_def)
  qed
qed

section \<open>Claims about the hierarchy deriver\<close>

text \<open>
  C4. For every sequence of file records whose relative paths have no empty segment
  (the relative paths that \<^verbatim>\<open>clean_directory\<close> produces are of this kind), the set of
  \<^verbatim>\<open>directory_path\<close> values of the derived records is exactly the set of joined
  prefixes of the segments of the records' relative paths, the empty prefix (the root)
  and the full path (which ends with the file name) excluded, and no
  \<^verbatim>\<open>directory_path\<close> appears twice. So a directory appears only when some record lies
  below it.
\<close>

theorem get_directory_structure_prefixes:
  assumes "\<forall>r\<in>set file_data. [] \<notin> set (split_sep (relative_path r))"
  shows "set (map directory_path (get_directory_structure file_data)) =
           {sep_join (take k (split_sep (relative_path r))) | r k.
              r \<in> set file_data \<and> 0 < k \<and> k < length (split_sep (relative_path r))}
         \<and> distinct (map directory_path (get_directory_structure file_data))"
proof -
  have "set (map directory_path (get_directory_structure file_data)) =
          (\<Union>r\<in>set file_data. dir_prefixes (relative_path r)) - {[]}"
    using all_directories_exact [OF assms, of "{}"] set_directory_paths [of file_data] by simp
  also have "\<dots> = (\<Union>r\<in>set file_data. dir_prefixes (relative_path r) - {[]})"
    by blast
  also have "\<dots> = (\<Union>r\<in>set file_data.
          {sep_join (take k (split_sep (relative_path r))) | k.
             0 < k \<and> k < length (split_sep (relative_path r))})"
    using assms by (simp add: dir_prefixes_nonempty)
  also have "\<dots> = {sep_join (take k (split_sep (relative_path r))) | r k.
              r \<in> set file_data \<and> 0 < k \<and> k < length (split_sep (relative_path r))}"
    by blast
  finally show ?thesis using distinct_directory_paths by blast
qed

theorem get_directory_structure_prefixes_witness:
  "[] \<notin> set (split_sep ''a/b/report.txt'')
   \<and> map directory_path (get_directory_structure
        [\<lparr>filename = ''report.txt'', relative_path = ''a/b/report.txt'', raw_size = 10,
          modified = 0, directory = ''a/b''\<rparr>]) = [''a'', ''a/b'']
   \<and> {sep_join (take k (split_sep (relative_path r))) | r k.
         r \<in> set [\<lparr>filename = ''report.txt'', relative_path = ''a/b/report.txt'', raw_size = 10,
                    modified = 0, directory = ''a/b''\<rparr>]
         \<and> 0 < k \<and> k < length (split_sep (relative_path r))} = {''a'', ''a/b''}"
proof -
  let ?r = "\<lparr>filename = ''report.txt'', relative_path = ''a/b/report.txt'', raw_size = 10,
          modified = 0, directory = ''a/b''\<rparr>"
  have h: "\<forall>r\<in>set [?r]. [] \<notin> set (split_sep (relative_path r))" by simp
  have v: "map directory_path (get_directory_structure [?r]) = [''a'', ''a/b'']" by code_simp
  from get_directory_structure_prefixes [OF h] v show ?thesis by simp
qed

text \<open>
  C8. For every derived directory record, whatever the input, \<^verbatim>\<open>depth\<close> is the number
  of segments of \<^verbatim>\<open>directory_path\<close>, \<^verbatim>\<open>os.path.join\<close> of \<^verbatim>\<open>parent_directory\<close> and
  \<^verbatim>\<open>directory_name\<close> is \<^verbatim>\<open>directory_path\<close>, and \<^verbatim>\<open>parent_directory\<close> is empty when
  the depth is 1.
\<close>

theorem directory_record_depth_and_reassembly:
  "\<forall>d\<in>set (get_directory_structure file_data).
     depth d = int (length (split_sep (directory_path d)))
     \<and> path_join (parent_directory d) (directory_name d) = directory_path d
     \<and> (depth d = 1 \<longrightarrow> parent_directory d = [])"
proof
  fix d assume "d \<in> set (get_directory_structure file_data)"
  then obtain ss where ok: "segs_ok ss" and p: "directory_path d = sep_join ss"
    and dp: "depth d = int (length ss)" and par: "parent_directory d = sep_join (butlast ss)"
    and nm: "directory_name d = last ss"
    using dir_info_fields by blast
  have ss: "ss = butlast ss @ [last ss]" using ok by (simp add: segs_ok_def)
  have l: "sep \<notin> set (last ss)" using segs_ok_last [OF ok] by simp
  have 1: "depth d = int (length (split_sep (directory_path d)))"
    using ok p dp by (simp add: split_sep_sep_join)
  have 2: "path_join (parent_directory d) (directory_name d) = directory_path d"
  proof (cases "butlast ss = []")
    case True
    then have "sep_join ss = last ss" using ss by (metis append_Nil sep_join.simps(2))
    then show ?thesis using True par nm p l by (simp add: path_join_empty)
  next
    case False
    then have okb: "segs_ok (butlast ss)" using ok by (simp add: segs_ok_butlast)
    have "sep_join ss = sep_join (butlast ss) @ sep # last ss"
      using sep_join_snoc [OF False, of "last ss"] ss by simp
    then show ?thesis
      using par nm p path_join_plain [OF sep_join_nonempty [OF okb] sep_join_last [OF okb] l]
      by simp
  qed
  have 3: "depth d = 1 \<longrightarrow> parent_directory d = []"
  proof
    assume "depth d = 1"
    with dp have "length ss = 1" by simp
    then have "butlast ss = []" by (cases ss) auto
    with par show "parent_directory d = []" by simp
  qed
  from 1 2 3 show "depth d = int (length (split_sep (directory_path d)))
     \<and> path_join (parent_directory d) (directory_name d) = directory_path d
     \<and> (depth d = 1 \<longrightarrow> parent_directory d = [])" by blast
qed

theorem directory_record_depth_and_reassembly_witness:
  "get_directory_structure
     [\<lparr>filename = ''report.txt'', relative_path = ''a/b/report.txt'', raw_size = 10,
       modified = 0, directory = ''a/b''\<rparr>] =
     [\<lparr>directory_path = ''a'', depth = 1, parent_directory = [], directory_name = ''a''\<rparr>,
      \<lparr>directory_path = ''a/b'', depth = 2, parent_directory = ''a'', directory_name = ''b''\<rparr>]
   \<and> 2 = int (length (split_sep ''a/b''))
   \<and> path_join ''a'' ''b'' = ''a/b''
   \<and> path_join [] ''a'' = ''a''"
proof -
  let ?fd = "[\<lparr>filename = ''report.txt'', relative_path = ''a/b/report.txt'', raw_size = 10,
       modified = 0, directory = ''a/b''\<rparr>]"
  have v: "get_directory_structure ?fd =
     [\<lparr>directory_path = ''a'', depth = 1, parent_directory = [], directory_name = ''a''\<rparr>,
      \<lparr>directory_path = ''a/b'', depth = 2, parent_directory = ''a'', directory_name = ''b''\<rparr>]"
    by code_simp
  from directory_record_depth_and_reassembly [of ?fd] v show ?thesis by simp
qed

text \<open>
  C10. Every derived directory record, whatever the input, has a non-empty
  \<^verbatim>\<open>directory_path\<close>, a depth of at least 1 and a non-empty \<^verbatim>\<open>directory_name\<close>: the
  empty path is never a record, so the branches of the record construction for an empty
  \<^verbatim>\<open>dir_path\<close> are never taken.
\<close>

theorem directory_record_nonempty:
  "\<forall>d\<in>set (get_directory_structure file_data).
     directory_path d \<noteq> [] \<and> 1 \<le> depth d \<and> directory_name d \<noteq> []"
proof
  fix d assume "d \<in> set (get_directory_structure file_data)"
  then obtain ss where ok: "segs_ok ss" and p: "directory_path d = sep_join ss"
    and dp: "depth d = int (length ss)" and nm: "directory_name d = last ss"
    using dir_info_fields by blast
  have "ss \<noteq> []" using ok by (simp add: segs_ok_def)
  then have "1 \<le> length ss" by (cases ss) auto
  then show "directory_path d \<noteq> [] \<and> 1 \<le> depth d \<and> directory_name d \<noteq> []"
    using p dp nm sep_join_nonempty [OF ok] segs_ok_last [OF ok] by simp
qed

theorem directory_record_nonempty_witness:
  "get_directory_structure
     [\<lparr>filename = ''z.txt'', relative_path = ''z.txt'', raw_size = 1,
       modified = 0, directory = []\<rparr>,
      \<lparr>filename = ''x.txt'', relative_path = ''a/x.txt'', raw_size = 1,
       modified = 0, directory = ''a''\<rparr>] =
     [\<lparr>directory_path = ''a'', depth = 1, parent_directory = [], directory_name = ''a''\<rparr>]
   \<and> ''a'' \<noteq> [] \<and> (1::int) \<le> 1"
proof -
  let ?fd = "[\<lparr>filename = ''z.txt'', relative_path = ''z.txt'', raw_size = 1,
       modified = 0, directory = []\<rparr>,
      \<lparr>filename = ''x.txt'', relative_path = ''a/x.txt'', raw_size = 1,
       modified = 0, directory = ''a''\<rparr>]"
  have v: "get_directory_structure ?fd =
     [\<lparr>directory_path = ''a'', depth = 1, parent_directory = [], directory_name = ''a''\<rparr>]"
    by code_simp
  from directory_record_nonempty [of ?fd] v show ?thesis by simp
qed

section \<open>Facts about the walker\<close>

subsection \<open>Counting\<close>

text \<open>
  One visit: a junk file whose size cannot be read is still removed, silently; and every
  visit adds one to \<^verbatim>\<open>total_files\<close> and to exactly one of \<^verbatim>\<open>cleaned_files\<close>, the
  records and the errors.
\<close>

lemma junk_unreadable_size_is_silent:
  assumes "should_clean_file name (path_join dirpath name)"
    and "stat_now on_disk (path_join dirpath name) a = Inl e" and "os_remove a = None"
  shows "visit_file dirpath rel_dir (name, a) (file_data, stats, on_disk) =
           ([], file_data,
            stats\<lparr>total_files := total_files stats + 1,
                   cleaned_files := cleaned_files stats + 1\<rparr>,
            removeAll (rel_dir @ [name]) on_disk)"
  using assms by (simp add: visit_file_def getsize_def Let_def)

lemma visit_file_one_bucket:
  "(case visit_file dirpath rel_dir entry (file_data, stats, on_disk) of
      (kept, file_data', stats', on_disk') \<Rightarrow>
      total_files stats' = total_files stats + 1
      \<and> ((kept = [] \<and> cleaned_files stats' = cleaned_files stats + 1
            \<and> file_data' = file_data \<and> errors stats' = errors stats)
         \<or> (kept = [entry] \<and> cleaned_files stats' = cleaned_files stats
            \<and> (\<exists>r. file_data' = file_data @ [r]) \<and> errors stats' = errors stats)
         \<or> (kept = [entry] \<and> cleaned_files stats' = cleaned_files stats
            \<and> file_data' = file_data \<and> (\<exists>m. errors stats' = errors stats @ [m]))))"
  by (cases entry)
     (simp add: visit_file_def Let_def split: sum.splits option.splits)

lemma visit_file_unaccounted:
  "unaccounted (snd (visit_file dirpath rel_dir entry state)) = unaccounted state"
  by (cases state; cases entry)
     (simp add: visit_file_def Let_def unaccounted_def split: sum.splits option.splits)

lemma visit_files_unaccounted:
  "unaccounted (snd (visit_files dirpath rel_dir filenames state)) = unaccounted state"
  by (induction filenames arbitrary: state)
     (simp_all add: Let_def case_prod_beta visit_file_unaccounted)

lemma walk_unaccounted:
  "unaccounted (snd (walk dirpath rel_dir node state)) = unaccounted state"
  "unaccounted (snd (walk_dirs dirpath rel_dir dirnames state)) = unaccounted state"
proof (induction dirpath rel_dir node state and dirpath rel_dir dirnames state
    rule: walk_walk_dirs.induct)
  case (1 dirpath rel_dir entries state)
  show ?case
    using "1.IH" [OF refl refl refl refl prod.collapse]
    by (simp add: Let_def case_prod_beta visit_files_unaccounted)
next
  case (5 dirpath rel_dir name node dirnames state)
  show ?case
    using "5.IH"(1) "5.IH"(2) [OF refl prod.collapse]
    by (simp add: Let_def case_prod_beta)
qed simp_all

lemma sum_list_sort_key:
  fixes g :: "'a \<Rightarrow> nat"
  shows "sum_list (map g (sort_key f xs)) = sum_list (map g xs)"
proof -
  have "mset (map g (sort_key f xs)) = mset (map g xs)" by simp
  then show ?thesis by (metis sum_mset_sum_list)
qed

lemma sum_list_filter_sort_key:
  fixes g :: "'a \<Rightarrow> nat"
  shows "sum_list (map g (filter P (sort_key f xs))) = sum_list (map g (filter P xs))"
  by (simp add: filter_sort sum_list_sort_key)

lemma count_entries_split:
  "count_entries entries =
     length (nondirs entries)
     + sum_list (map (\<lambda>d. count_visited (snd d)) (filter (\<lambda>d. \<not> hidden d) (dirs entries)))"
proof (induction entries)
  case Nil
  then show ?case by (simp add: nondirs_def dirs_def)
next
  case (Cons e entries)
  obtain name node where e: "e = (name, node)" by (cases e)
  show ?case
    using Cons.IH unfolding e
    by (cases node) (simp_all add: nondirs_def dirs_def hidden_def)
qed

lemma visit_file_total:
  "total_files (fst (snd (snd (visit_file dirpath rel_dir entry state)))) =
     total_files (fst (snd state)) + 1"
  by (cases state; cases entry)
     (simp add: visit_file_def Let_def split: sum.splits option.splits)

lemma visit_files_total:
  "total_files (fst (snd (snd (visit_files dirpath rel_dir filenames state)))) =
     total_files (fst (snd state)) + int (length filenames)"
  by (induction filenames arbitrary: state)
     (simp_all add: Let_def case_prod_beta visit_file_total)

lemma walk_total:
  "total_files (fst (snd (snd (walk dirpath rel_dir node state)))) =
     total_files (fst (snd state)) + int (count_visited node)"
  "total_files (fst (snd (snd (walk_dirs dirpath rel_dir dirnames state)))) =
     total_files (fst (snd state)) + int (sum_list (map (\<lambda>d. count_visited (snd d)) dirnames))"
proof (induction dirpath rel_dir node state and dirpath rel_dir dirnames state
    rule: walk_walk_dirs.induct)
  case (1 dirpath rel_dir entries state)
  show ?case
    using "1.IH" [OF refl refl refl refl prod.collapse]
    by (simp add: Let_def case_prod_beta visit_files_total count_entries_split
        sum_list_filter_sort_key)
next
  case (5 dirpath rel_dir name node dirnames state)
  show ?case
    using "5.IH"(1) "5.IH"(2) [OF refl prod.collapse]
    by (simp add: Let_def case_prod_beta)
qed simp_all

lemma get_directory_structure_Nil: "get_directory_structure [] = []"
  by (simp add: get_directory_structure_def)

lemma exit_status_main:
  "exit_status (fst (main root_path root e1 e2)) = (if e1 = None \<and> e2 = None then 0 else 1)"
  by (simp add: main_def exit_status_def Let_def case_prod_beta split: option.splits)

subsection \<open>The state only grows\<close>

text \<open>
  Every stage of the walk appends to the records and to the error entries of the state it
  starts from, so a walk that ends with the error entries it started with has logged no
  error at any stage.
\<close>

lemma grows_refl: "grows state state"
  by (simp add: grows_def)

lemma grows_trans: "grows s1 s2 \<Longrightarrow> grows s2 s3 \<Longrightarrow> grows s1 s3"
  unfolding grows_def by (metis append.assoc)

lemma grows_added: "grows state state' \<Longrightarrow> fst state' = fst state @ added state state'"
  by (auto simp: grows_def added_def)

lemma added_refl: "added state state = []"
  by (simp add: added_def)

lemma added_trans:
  "grows s1 s2 \<Longrightarrow> grows s2 s3 \<Longrightarrow> added s1 s3 = added s1 s2 @ added s2 s3"
  by (auto simp: grows_def added_def)


lemma visit_file_grows: "grows state (snd (visit_file dirpath rel_dir entry state))"
  by (cases state; cases entry)
     (simp add: visit_file_def Let_def grows_def split: sum.splits option.splits)

lemma visit_files_grows: "grows state (snd (visit_files dirpath rel_dir filenames state))"
proof (induction filenames arbitrary: state)
  case Nil
  then show ?case by (simp add: grows_refl)
next
  case (Cons entry filenames)
  show ?case
    using grows_trans [OF visit_file_grows Cons.IH, of state dirpath rel_dir entry]
    by (simp add: Let_def case_prod_beta)
qed

lemma walk_grows:
  "grows state (snd (walk dirpath rel_dir node state))"
  "grows state (snd (walk_dirs dirpath rel_dir dirnames state))"
proof (induction dirpath rel_dir node state and dirpath rel_dir dirnames state
    rule: walk_walk_dirs.induct)
  case (1 dirpath rel_dir entries state)
  show ?case
    using grows_trans [OF visit_files_grows "1.IH" [OF refl refl refl refl prod.collapse]]
    by (simp add: Let_def case_prod_beta)
next
  case (5 dirpath rel_dir name node dirnames state)
  show ?case
    using grows_trans [OF "5.IH"(1) "5.IH"(2) [OF refl prod.collapse]]
    by (simp add: Let_def case_prod_beta)
qed (simp_all add: grows_refl)

text \<open>Projections of the walk of a directory and of a list of directories.\<close>

lemma walk_Dir_snd:
  "snd (walk dirpath rel_dir (Dir entries) state) =
     snd (walk_dirs dirpath rel_dir (filter (\<lambda>d. \<not> hidden d) (sort_key fst (dirs entries)))
            (snd (visit_files dirpath rel_dir (sort_key fst (nondirs entries)) state)))"
  by (simp add: Let_def case_prod_beta)


lemma walk_dirs_Cons_snd:
  "snd (walk_dirs dirpath rel_dir ((name, node) # dirnames) state) =
     snd (walk_dirs dirpath rel_dir dirnames
            (snd (walk (path_join dirpath name) (rel_dir @ [name]) node state)))"
  by (simp add: Let_def case_prod_beta)


lemma visit_files_Cons_snd:
  "snd (visit_files dirpath rel_dir (entry # filenames) state) =
     snd (visit_files dirpath rel_dir filenames (snd (visit_file dirpath rel_dir entry state)))"
  by (simp add: Let_def case_prod_beta)


subsection \<open>The relative paths of the records\<close>

lemma segs_ok_iff: "segs_ok ss \<longleftrightarrow> ss \<noteq> [] \<and> (\<forall>s\<in>set ss. good_name s)"
  by (auto simp: segs_ok_def good_name_def)

lemma split_relpath:
  assumes "\<forall>s\<in>set rel_dir. good_name s" "segs_ok segs"
  shows "split_sep (sep_join (rel_dir @ segs)) = rel_dir @ segs"
  using assms by (intro split_sep_sep_join) (auto simp: segs_ok_iff)

lemma distinct_fst_sort_key:
  "distinct (map fst xs) \<Longrightarrow> distinct (map fst (sort_key fst xs))"
proof -
  assume d: "distinct (map fst xs)"
  have "mset (map fst (sort_key fst xs)) = mset (map fst xs)" by simp
  then show ?thesis using d by (metis mset_eq_imp_distinct_iff)
qed

lemma distinct_map_sort_key:
  "distinct (map f xs) \<Longrightarrow> distinct (map f (sort_key f xs))"
proof -
  assume d: "distinct (map f xs)"
  have "mset (map f (sort_key f xs)) = mset (map f xs)" by simp
  then show ?thesis using d by (metis mset_eq_imp_distinct_iff)
qed

lemma set_dirs: "set (dirs entries) \<subseteq> set entries"
  by (auto simp: dirs_def)

lemma distinct_dirs: "distinct (map fst entries) \<Longrightarrow> distinct (map fst (dirs entries))"
  unfolding dirs_def by (rule distinct_map_filter)

lemma nondirs_mem: "(name, a) \<in> set (nondirs entries) \<longleftrightarrow> (name, File a) \<in> set entries"
  by (induction entries) (auto simp: nondirs_def split: fsnode.splits)

lemma map_fst_nondirs:
  "map fst (nondirs entries) =
     map fst (filter (\<lambda>e. case snd e of File a \<Rightarrow> True | _ \<Rightarrow> False) entries)"
  by (induction entries) (auto simp: nondirs_def split: fsnode.splits)

lemma distinct_nondirs: "distinct (map fst entries) \<Longrightarrow> distinct (map fst (nondirs entries))"
  unfolding map_fst_nondirs by (rule distinct_map_filter)

lemma wf_node_Dir:
  "wf_node (Dir entries) \<longleftrightarrow>
     distinct (map fst entries) \<and> (\<forall>e\<in>set entries. good_name (fst e) \<and> wf_node (snd e))"
  by (auto simp: list_all_iff)

lemma visit_file_added:
  "map relative_path (added state (snd (visit_file dirpath rel_dir entry state))) = []
   \<or> map relative_path (added state (snd (visit_file dirpath rel_dir entry state))) =
       [relpath rel_dir (fst entry)]"
  by (cases state; cases entry)
     (simp add: visit_file_def Let_def added_def split: sum.splits option.splits)

lemma visit_files_paths:
  assumes r: "\<forall>s\<in>set rel_dir. good_name s"
    and g: "\<forall>e\<in>set filenames. good_name (fst e)"
    and d: "distinct (map fst filenames)"
  shows "distinct (map relative_path
           (added state (snd (visit_files dirpath rel_dir filenames state))))
       \<and> (\<forall>x\<in>set (added state (snd (visit_files dirpath rel_dir filenames state))).
            \<exists>name\<in>fst ` set filenames. split_sep (relative_path x) = rel_dir @ [name])"
  using g d
proof (induction filenames arbitrary: state)
  case Nil
  then show ?case by (simp add: added_refl)
next
  case (Cons entry filenames)
  define s1 where "s1 = snd (visit_file dirpath rel_dir entry state)"
  define s2 where "s2 = snd (visit_files dirpath rel_dir filenames s1)"
  have snd_eq: "snd (visit_files dirpath rel_dir (entry # filenames) state) = s2"
    unfolding s2_def s1_def by (rule visit_files_Cons_snd)
  have g1: "grows state s1" unfolding s1_def by (rule visit_file_grows)
  have g2: "grows s1 s2" unfolding s2_def by (rule visit_files_grows)
  have add: "added state s2 = added state s1 @ added s1 s2"
    using g1 g2 by (rule added_trans)
  have ge: "good_name (fst entry)" using Cons.prems(1) by simp
  have sp: "split_sep (relpath rel_dir name) = rel_dir @ [name]" if "good_name name" for name
    unfolding relpath_def using r that by (intro split_relpath) (auto simp: segs_ok_iff)
  from Cons.prems have "\<forall>e\<in>set filenames. good_name (fst e)" "distinct (map fst filenames)"
    by simp_all
  then have ih: "distinct (map relative_path (added s1 s2))"
    and ih2: "\<forall>x\<in>set (added s1 s2). \<exists>name\<in>fst ` set filenames.
                split_sep (relative_path x) = rel_dir @ [name]"
    using Cons.IH [of s1] unfolding s2_def by blast+
  have first: "map relative_path (added state s1) = []
      \<or> map relative_path (added state s1) = [relpath rel_dir (fst entry)]"
    unfolding s1_def by (rule visit_file_added)
  have fresh: "relpath rel_dir (fst entry) \<notin> set (map relative_path (added s1 s2))"
  proof
    assume "relpath rel_dir (fst entry) \<in> set (map relative_path (added s1 s2))"
    then obtain x where x: "x \<in> set (added s1 s2)"
      and e: "relative_path x = relpath rel_dir (fst entry)" by auto
    from ih2 x obtain name where n: "name \<in> fst ` set filenames"
      and "split_sep (relative_path x) = rel_dir @ [name]" by blast
    with e sp [OF ge] have "name = fst entry" by simp
    with n Cons.prems(2) show False by simp
  qed
  have 1: "distinct (map relative_path (added state s2))"
    unfolding add using first ih fresh by auto
  have 2: "\<forall>x\<in>set (added state s2). \<exists>name\<in>fst ` set (entry # filenames).
              split_sep (relative_path x) = rel_dir @ [name]"
  proof
    fix x assume "x \<in> set (added state s2)"
    then consider "x \<in> set (added state s1)" | "x \<in> set (added s1 s2)"
      unfolding add by auto
    then show "\<exists>name\<in>fst ` set (entry # filenames).
              split_sep (relative_path x) = rel_dir @ [name]"
    proof cases
      case 1
      then have "relative_path x \<in> set (map relative_path (added state s1))" by simp
      with first have "relative_path x = relpath rel_dir (fst entry)" by auto
      then show ?thesis using sp [OF ge] by simp
    next
      case 2
      with ih2 show ?thesis by auto
    qed
  qed
  show ?case unfolding snd_eq using 1 2 by blast
qed

lemma walk_paths:
  "(\<forall>s\<in>set rel_dir. good_name s) \<longrightarrow> wf_node node \<longrightarrow>
     distinct (map relative_path (added state (snd (walk dirpath rel_dir node state))))
     \<and> (\<forall>x\<in>set (added state (snd (walk dirpath rel_dir node state))).
          \<exists>segs. segs_ok segs \<and> split_sep (relative_path x) = rel_dir @ segs)"
  "(\<forall>s\<in>set rel_dir. good_name s) \<longrightarrow> distinct (map fst dirnames) \<longrightarrow>
     (\<forall>e\<in>set dirnames. good_name (fst e) \<and> wf_node (snd e)) \<longrightarrow>
     distinct (map relative_path (added state (snd (walk_dirs dirpath rel_dir dirnames state))))
     \<and> (\<forall>x\<in>set (added state (snd (walk_dirs dirpath rel_dir dirnames state))).
          \<exists>name\<in>fst ` set dirnames. \<exists>segs. segs_ok segs
             \<and> split_sep (relative_path x) = rel_dir @ name # segs)"
proof (induction dirpath rel_dir node state and dirpath rel_dir dirnames state
    rule: walk_walk_dirs.induct)
  case (1 dirpath rel_dir entries state)
  define dn where "dn = filter (\<lambda>d. \<not> hidden d) (sort_key fst (dirs entries))"
  define fn where "fn = sort_key fst (nondirs entries)"
  define s1 where "s1 = snd (visit_files dirpath rel_dir fn state)"
  define s2 where "s2 = snd (walk_dirs dirpath rel_dir dn s1)"
  have snd_eq: "snd (walk dirpath rel_dir (Dir entries) state) = s2"
    unfolding s2_def s1_def dn_def fn_def by (rule walk_Dir_snd)
  have ih: "(\<forall>s\<in>set rel_dir. good_name s) \<longrightarrow> distinct (map fst dn) \<longrightarrow>
     (\<forall>e\<in>set dn. good_name (fst e) \<and> wf_node (snd e)) \<longrightarrow>
     distinct (map relative_path (added s1 s2))
     \<and> (\<forall>x\<in>set (added s1 s2).
          \<exists>name\<in>fst ` set dn. \<exists>segs. segs_ok segs
             \<and> split_sep (relative_path x) = rel_dir @ name # segs)"
    using "1.IH" [OF refl refl refl refl prod.collapse]
    unfolding s2_def s1_def dn_def fn_def .
  have g1: "grows state s1" unfolding s1_def by (rule visit_files_grows)
  have g2: "grows s1 s2" unfolding s2_def by (rule walk_grows)
  have add: "added state s2 = added state s1 @ added s1 s2"
    using g1 g2 by (rule added_trans)
  show ?case
  proof (intro impI)
    assume r: "\<forall>s\<in>set rel_dir. good_name s" and wf: "wf_node (Dir entries)"
    from wf [unfolded wf_node_Dir] have de: "distinct (map fst entries)"
      and ge: "\<forall>e\<in>set entries. good_name (fst e) \<and> wf_node (snd e)"
      by blast+
    have dn1: "distinct (map fst dn)"
      unfolding dn_def using de by (intro distinct_map_filter distinct_fst_sort_key distinct_dirs)
    have dn2: "\<forall>e\<in>set dn. good_name (fst e) \<and> wf_node (snd e)"
      unfolding dn_def using ge set_dirs [of entries] by fastforce
    have fn1: "distinct (map fst fn)"
      unfolding fn_def using de by (intro distinct_fst_sort_key distinct_nondirs)
    have fn2: "\<forall>e\<in>set fn. good_name (fst e)"
      unfolding fn_def using ge by (fastforce simp: nondirs_mem)
    have F1: "distinct (map relative_path (added state s1))"
      and F2: "\<forall>x\<in>set (added state s1). \<exists>name\<in>fst ` set fn.
                 split_sep (relative_path x) = rel_dir @ [name]"
      using visit_files_paths [OF r fn2 fn1, of state dirpath] unfolding s1_def by blast+
    from ih r dn1 dn2 have D1: "distinct (map relative_path (added s1 s2))"
      and D2: "\<forall>x\<in>set (added s1 s2). \<exists>name\<in>fst ` set dn. \<exists>segs. segs_ok segs
                   \<and> split_sep (relative_path x) = rel_dir @ name # segs"
      by blast+
    have disj: "set (map relative_path (added state s1)) \<inter> set (map relative_path (added s1 s2)) = {}"
    proof (rule ccontr)
      assume "set (map relative_path (added state s1)) \<inter> set (map relative_path (added s1 s2)) \<noteq> {}"
      then obtain x y where x: "x \<in> set (added state s1)" and y: "y \<in> set (added s1 s2)"
        and e: "relative_path x = relative_path y" by auto
      from F2 x obtain f where "split_sep (relative_path x) = rel_dir @ [f]" by blast
      moreover from D2 y obtain name segs where "segs_ok segs"
        "split_sep (relative_path y) = rel_dir @ name # segs" by blast
      ultimately show False using e by (simp add: segs_ok_def)
    qed
    have 1: "distinct (map relative_path (added state s2))"
      unfolding add using F1 D1 disj by simp
    have 2: "\<forall>x\<in>set (added state s2).
        \<exists>segs. segs_ok segs \<and> split_sep (relative_path x) = rel_dir @ segs"
    proof
      fix x assume "x \<in> set (added state s2)"
      then consider "x \<in> set (added state s1)" | "x \<in> set (added s1 s2)"
        unfolding add by auto
      then show "\<exists>segs. segs_ok segs \<and> split_sep (relative_path x) = rel_dir @ segs"
      proof cases
        case 1
        with F2 obtain name where n: "name \<in> fst ` set fn"
          and s: "split_sep (relative_path x) = rel_dir @ [name]" by blast
        from n fn2 have "good_name name" by auto
        then have "segs_ok [name]" by (simp add: segs_ok_iff)
        with s show ?thesis by blast
      next
        case 2
        with D2 obtain name segs where n: "name \<in> fst ` set dn" and "segs_ok segs"
          and s: "split_sep (relative_path x) = rel_dir @ name # segs" by blast
        moreover from n dn2 have "good_name name" by auto
        ultimately have "segs_ok (name # segs)" by (simp add: segs_ok_iff)
        with s show ?thesis by blast
      qed
    qed
    show "distinct (map relative_path (added state (snd (walk dirpath rel_dir (Dir entries) state))))
     \<and> (\<forall>x\<in>set (added state (snd (walk dirpath rel_dir (Dir entries) state))).
          \<exists>segs. segs_ok segs \<and> split_sep (relative_path x) = rel_dir @ segs)"
      unfolding snd_eq using 1 2 by blast
  qed
next
  case (2 dirpath rel_dir a state)
  show ?case by (simp add: added_refl)
next
  case (3 dirpath rel_dir state)
  show ?case by (simp add: added_refl)
next
  case (4 dirpath rel_dir state)
  show ?case by (simp add: added_refl)
next
  case (5 dirpath rel_dir name node dirnames state)
  define s1 where "s1 = snd (walk (path_join dirpath name) (rel_dir @ [name]) node state)"
  define s2 where "s2 = snd (walk_dirs dirpath rel_dir dirnames s1)"
  have snd_eq: "snd (walk_dirs dirpath rel_dir ((name, node) # dirnames) state) = s2"
    unfolding s2_def s1_def by (rule walk_dirs_Cons_snd)
  have ih1: "(\<forall>s\<in>set (rel_dir @ [name]). good_name s) \<longrightarrow> wf_node node \<longrightarrow>
     distinct (map relative_path (added state s1))
     \<and> (\<forall>x\<in>set (added state s1).
          \<exists>segs. segs_ok segs \<and> split_sep (relative_path x) = (rel_dir @ [name]) @ segs)"
    using "5.IH"(1) unfolding s1_def .
  have ih2: "(\<forall>s\<in>set rel_dir. good_name s) \<longrightarrow> distinct (map fst dirnames) \<longrightarrow>
     (\<forall>e\<in>set dirnames. good_name (fst e) \<and> wf_node (snd e)) \<longrightarrow>
     distinct (map relative_path (added s1 s2))
     \<and> (\<forall>x\<in>set (added s1 s2).
          \<exists>n\<in>fst ` set dirnames. \<exists>segs. segs_ok segs
             \<and> split_sep (relative_path x) = rel_dir @ n # segs)"
    using "5.IH"(2) [OF refl prod.collapse] unfolding s2_def s1_def .
  have g1: "grows state s1" unfolding s1_def by (rule walk_grows)
  have g2: "grows s1 s2" unfolding s2_def by (rule walk_grows)
  have add: "added state s2 = added state s1 @ added s1 s2"
    using g1 g2 by (rule added_trans)
  show ?case
  proof (intro impI)
    assume r: "\<forall>s\<in>set rel_dir. good_name s"
      and d: "distinct (map fst ((name, node) # dirnames))"
      and g: "\<forall>e\<in>set ((name, node) # dirnames). good_name (fst e) \<and> wf_node (snd e)"
    from g have gn: "good_name name" and wn: "wf_node node" by simp_all
    from r gn have r': "\<forall>s\<in>set (rel_dir @ [name]). good_name s" by simp
    from ih1 r' wn have N1: "distinct (map relative_path (added state s1))"
      and N2: "\<forall>x\<in>set (added state s1). \<exists>segs. segs_ok segs
                 \<and> split_sep (relative_path x) = (rel_dir @ [name]) @ segs"
      by blast+
    from d g have "distinct (map fst dirnames)"
      "\<forall>e\<in>set dirnames. good_name (fst e) \<and> wf_node (snd e)" by simp_all
    with ih2 r have W1: "distinct (map relative_path (added s1 s2))"
      and W2: "\<forall>x\<in>set (added s1 s2). \<exists>n\<in>fst ` set dirnames. \<exists>segs. segs_ok segs
                   \<and> split_sep (relative_path x) = rel_dir @ n # segs"
      by blast+
    have disj: "set (map relative_path (added state s1)) \<inter> set (map relative_path (added s1 s2)) = {}"
    proof (rule ccontr)
      assume "set (map relative_path (added state s1)) \<inter> set (map relative_path (added s1 s2)) \<noteq> {}"
      then obtain x y where x: "x \<in> set (added state s1)" and y: "y \<in> set (added s1 s2)"
        and e: "relative_path x = relative_path y" by auto
      from N2 x obtain segs where "split_sep (relative_path x) = (rel_dir @ [name]) @ segs"
        by blast
      moreover from W2 y obtain n segs' where "n \<in> fst ` set dirnames"
        "split_sep (relative_path y) = rel_dir @ n # segs'" by blast
      ultimately have "name \<in> fst ` set dirnames" using e by simp
      with d show False by simp
    qed
    have 1: "distinct (map relative_path (added state s2))"
      unfolding add using N1 W1 disj by simp
    have 2: "\<forall>x\<in>set (added state s2).
        \<exists>n\<in>fst ` set ((name, node) # dirnames). \<exists>segs. segs_ok segs
           \<and> split_sep (relative_path x) = rel_dir @ n # segs"
    proof
      fix x assume "x \<in> set (added state s2)"
      then consider "x \<in> set (added state s1)" | "x \<in> set (added s1 s2)"
        unfolding add by auto
      then show "\<exists>n\<in>fst ` set ((name, node) # dirnames). \<exists>segs. segs_ok segs
           \<and> split_sep (relative_path x) = rel_dir @ n # segs"
      proof cases
        case 1
        with N2 obtain segs where "segs_ok segs"
          "split_sep (relative_path x) = (rel_dir @ [name]) @ segs" by blast
        then show ?thesis by auto
      next
        case 2
        with W2 show ?thesis by auto
      qed
    qed
    show "distinct (map relative_path
            (added state (snd (walk_dirs dirpath rel_dir ((name, node) # dirnames) state))))
      \<and> (\<forall>x\<in>set (added state (snd (walk_dirs dirpath rel_dir ((name, node) # dirnames) state))).
        \<exists>n\<in>fst ` set ((name, node) # dirnames). \<exists>segs. segs_ok segs
           \<and> split_sep (relative_path x) = rel_dir @ n # segs)"
      unfolding snd_eq using 1 2 by blast
  qed
qed

lemma clean_directory_Some:
  "clean_directory root_path (Some node) stats =
     (sort_key relative_path
        (added ([], stats, file_paths [] node)
           (snd (walk root_path [] node ([], stats, file_paths [] node)))),
      fst (snd (snd (walk root_path [] node ([], stats, file_paths [] node)))),
      Some (fst (walk root_path [] node ([], stats, file_paths [] node))))"
  by (simp add: clean_directory_def case_prod_beta added_def)

lemma clean_directory_paths_normalised:
  assumes "wf_root root"
  shows "\<forall>r\<in>set (fst (clean_directory root_path root stats)).
           [] \<notin> set (split_sep (relative_path r))"
proof (cases root)
  case None
  then show ?thesis by (simp add: clean_directory_def)
next
  case (Some node)
  with assms have wf: "wf_node node" by (simp add: wf_root_def)
  have "\<forall>x\<in>set (added ([], stats, file_paths [] node)
           (snd (walk root_path [] node ([], stats, file_paths [] node)))).
          \<exists>segs. segs_ok segs \<and> split_sep (relative_path x) = [] @ segs"
    using walk_paths(1) [of "[]" node "([], stats, file_paths [] node)" root_path] wf by simp
  then show ?thesis
    unfolding Some clean_directory_Some by (auto simp: segs_ok_def)
qed

subsection \<open>A second walk\<close>





























section \<open>Claims about the walker\<close>

text \<open>
  C1 (as amended). A root that is not a listable directory (it does not exist, it is not
  a directory, or it cannot be listed) does not abort the run: \<^verbatim>\<open>os.walk\<close> yields
  nothing, so no file is visited, deleted or recorded and no error is logged, and
  \<^verbatim>\<open>main\<close> goes on to write two empty inventories and returns normally. The exit status
  is 0 exactly when the two writers raise nothing, whatever the root and whatever
  happens to single files. For a root that is a directory, no error on a file ends the
  walk: every file that the walk has to visit is counted in \<^verbatim>\<open>total_files\<close>.
\<close>

theorem invalid_root_is_an_empty_walk:
  "clean_directory root_path None stats = ([], stats, None)
   \<and> clean_directory root_path (Some (File a)) stats = ([], stats, Some (File a))
   \<and> clean_directory root_path (Some Unlisted) stats = ([], stats, Some Unlisted)
   \<and> main root_path None None None =
       (Inr \<lparr>files_inventory = [], dirs_inventory = [], summary_stats = FileStats_init\<rparr>, None)
   \<and> main root_path (Some (File a)) None None =
       (Inr \<lparr>files_inventory = [], dirs_inventory = [], summary_stats = FileStats_init\<rparr>,
        Some (File a))
   \<and> main root_path (Some Unlisted) None None =
       (Inr \<lparr>files_inventory = [], dirs_inventory = [], summary_stats = FileStats_init\<rparr>,
        Some Unlisted)
   \<and> exit_status (fst (main root_path root e1 e2)) = (if e1 = None \<and> e2 = None then 0 else 1)
   \<and> total_files (fst (snd (clean_directory root_path (Some (Dir entries)) stats))) =
       total_files stats + int (count_visited (Dir entries))"
proof -
  have "total_files (fst (snd (clean_directory root_path (Some (Dir entries)) stats))) =
       total_files stats + int (count_visited (Dir entries))"
    using walk_total(1) [of root_path "[]" "Dir entries" "([], stats, file_paths [] (Dir entries))"]
    by (simp add: clean_directory_def case_prod_beta)
  moreover have "main root_path None None None =
       (Inr \<lparr>files_inventory = [], dirs_inventory = [], summary_stats = FileStats_init\<rparr>, None)"
    by (simp add: main_def clean_directory_def get_directory_structure_Nil)
  moreover have "main root_path (Some (File a)) None None =
       (Inr \<lparr>files_inventory = [], dirs_inventory = [], summary_stats = FileStats_init\<rparr>,
        Some (File a))"
    by (simp add: main_def clean_directory_def get_directory_structure_Nil)
  moreover have "main root_path (Some Unlisted) None None =
       (Inr \<lparr>files_inventory = [], dirs_inventory = [], summary_stats = FileStats_init\<rparr>,
        Some Unlisted)"
    by (simp add: main_def clean_directory_def get_directory_structure_Nil)
  ultimately show ?thesis
    using exit_status_main [of root_path root e1 e2]
    by (simp add: clean_directory_def)
qed

text \<open>
  C1, the claim as stated, fails: with a root path that does not exist, \<^verbatim>\<open>main\<close> does
  not abort. It returns normally with two empty inventories and fresh statistics.
\<close>

theorem invalid_root_aborts_counterexample:
  "main ''/path/to/scan'' None None None =
     (Inr \<lparr>files_inventory = [], dirs_inventory = [], summary_stats = FileStats_init\<rparr>, None)"
  by (simp add: main_def clean_directory_def get_directory_structure_Nil)

text \<open>
  C3. The claim does not hold of the code: \<^verbatim>\<open>cleaned_size\<close> is increased before
  \<^verbatim>\<open>os.remove\<close> is called, so a junk file whose size was read and whose removal then
  raises is counted in \<^verbatim>\<open>cleaned_size\<close> although it is not deleted. Here the only
  file, of 10 bytes, stays in the directory and is not counted in \<^verbatim>\<open>cleaned_files\<close>,
  yet \<^verbatim>\<open>cleaned_size\<close> is 10.
\<close>

theorem cleaned_size_counts_undeleted_file:
  "clean_directory ''/path/to/scan''
     (Some (Dir [(''.DS_Store'',
                  File \<lparr>os_stat = Inr \<lparr>st_size = 10, st_mtime = 0\<rparr>,
                        os_remove = Some ''[Errno 13] Permission denied'',
                        link_chain = [], record_error = None\<rparr>)]))
     FileStats_init =
   ([],
    \<lparr>total_files = 1, cleaned_files = 0, cleaned_size = 10,
      errors = [''Error processing /path/to/scan/.DS_Store: [Errno 13] Permission denied'']\<rparr>,
    Some (Dir [(''.DS_Store'',
                File \<lparr>os_stat = Inr \<lparr>st_size = 10, st_mtime = 0\<rparr>,
                      os_remove = Some ''[Errno 13] Permission denied'',
                      link_chain = [], record_error = None\<rparr>)]))"
  by code_simp

text \<open>
  C5. After \<^verbatim>\<open>clean_directory\<close>, the increase of \<^verbatim>\<open>total_files\<close> is the increase of
  \<^verbatim>\<open>cleaned_files\<close> plus the number of records returned plus the number of error
  entries added; with the fresh statistics that \<^verbatim>\<open>main\<close> passes, \<^verbatim>\<open>total_files\<close> is
  \<^verbatim>\<open>cleaned_files\<close> plus the length of the result plus the length of \<^verbatim>\<open>errors\<close>.
  Every error entry is a file that raised and produced no record.
\<close>

theorem clean_directory_accounts_for_every_file:
  "(case clean_directory root_path root stats of (file_data, stats', root') \<Rightarrow>
      total_files stats' - total_files stats =
        (cleaned_files stats' - cleaned_files stats) + int (length file_data)
        + (int (length (errors stats')) - int (length (errors stats))))
   \<and> (case clean_directory root_path root FileStats_init of (file_data, stats', root') \<Rightarrow>
      total_files stats' =
        cleaned_files stats' + int (length file_data) + int (length (errors stats')))"
proof -
  have g: "(case clean_directory root_path root s of (file_data, stats', root') \<Rightarrow>
      total_files stats' - total_files s =
        (cleaned_files stats' - cleaned_files s) + int (length file_data)
        + (int (length (errors stats')) - int (length (errors s))))" for s
  proof (cases root)
    case None
    then show ?thesis by (simp add: clean_directory_def)
  next
    case (Some node)
    obtain node' fd s' d' where w:
      "walk root_path [] node ([], s, file_paths [] node) = (node', fd, s', d')"
      using prod_cases4 by blast
    have "unaccounted (fd, s', d') = unaccounted ([], s, file_paths [] node)"
      using walk_unaccounted(1) [of root_path "[]" node "([], s, file_paths [] node)"] w by simp
    then show ?thesis using Some w by (simp add: clean_directory_def unaccounted_def)
  qed
  show ?thesis using g [of stats] g [of FileStats_init]
    by (simp add: FileStats_init_def split: prod.splits)
qed

theorem clean_directory_accounts_for_every_file_witness:
  "clean_directory ''/path/to/scan''
     (Some (Dir [(''b.txt'', File \<lparr>os_stat = Inl ''[Errno 13] Permission denied'', os_remove = None,
                                 link_chain = [], record_error = None\<rparr>),
                 (''a.txt'', regular 4),
                 (''.DS_Store'', regular 7)]))
     FileStats_init =
   ([\<lparr>filename = ''a.txt'', relative_path = ''a.txt'', raw_size = 4, modified = 1700000000,
       directory = []\<rparr>],
    \<lparr>total_files = 3, cleaned_files = 1, cleaned_size = 7,
      errors = [''Error processing /path/to/scan/b.txt: [Errno 13] Permission denied'']\<rparr>,
    Some (Dir [(''a.txt'', regular 4),
               (''b.txt'', File \<lparr>os_stat = Inl ''[Errno 13] Permission denied'', os_remove = None,
                               link_chain = [], record_error = None\<rparr>)]))
   \<and> (3::int) = 1 + int (length [''a.txt'']) + int (length [''b.txt''])"
proof -
  let ?root = "Some (Dir [(''b.txt'', File \<lparr>os_stat = Inl ''[Errno 13] Permission denied'', os_remove = None,
                                 link_chain = [], record_error = None\<rparr>),
                 (''a.txt'', regular 4),
                 (''.DS_Store'', regular 7)])"
  have v: "clean_directory ''/path/to/scan'' ?root FileStats_init =
   ([\<lparr>filename = ''a.txt'', relative_path = ''a.txt'', raw_size = 4, modified = 1700000000,
       directory = []\<rparr>],
    \<lparr>total_files = 3, cleaned_files = 1, cleaned_size = 7,
      errors = [''Error processing /path/to/scan/b.txt: [Errno 13] Permission denied'']\<rparr>,
    Some (Dir [(''a.txt'', regular 4),
               (''b.txt'', File \<lparr>os_stat = Inl ''[Errno 13] Permission denied'', os_remove = None,
                               link_chain = [], record_error = None\<rparr>)]))"
    by code_simp
  from clean_directory_accounts_for_every_file
    [where root_path = "''/path/to/scan''" and root = ?root and stats = FileStats_init] v
  show ?thesis by simp
qed

text \<open>
  C6. The sequence returned by \<^verbatim>\<open>clean_directory\<close> is sorted ascending by
  \<^verbatim>\<open>relative_path\<close>, and on a well-formed file system (in a directory no name occurs
  twice, and a name is not empty and holds no separator) no two records have the same
  \<^verbatim>\<open>relative_path\<close>.
\<close>

theorem clean_directory_sorted_no_duplicates:
  "sorted (map relative_path (fst (clean_directory root_path root stats)))
   \<and> (wf_root root \<longrightarrow> distinct (map relative_path (fst (clean_directory root_path root stats))))"
proof (cases root)
  case None
  then show ?thesis by (simp add: clean_directory_def)
next
  case (Some node)
  have "wf_node node \<longrightarrow> distinct (map relative_path
          (added ([], stats, file_paths [] node)
             (snd (walk root_path [] node ([], stats, file_paths [] node)))))"
    using walk_paths(1) [of "[]" node "([], stats, file_paths [] node)" root_path] by simp
  then show ?thesis
    unfolding Some clean_directory_Some
    by (simp add: wf_root_def distinct_map_sort_key sorted_sort_key)
qed

theorem clean_directory_sorted_no_duplicates_witness:
  "wf_root (Some (Dir [(''z.txt'', regular 1),
                       (''a'', Dir [(''b'', Dir [(''report.txt'', regular 10)]),
                                    (''.DS_Store'', regular 7)])]))
   \<and> map relative_path (fst (clean_directory ''/path/to/scan''
        (Some (Dir [(''z.txt'', regular 1),
                    (''a'', Dir [(''b'', Dir [(''report.txt'', regular 10)]),
                                 (''.DS_Store'', regular 7)])]))
        FileStats_init)) = [''a/b/report.txt'', ''z.txt'']
   \<and> sorted [''a/b/report.txt'', ''z.txt'']
   \<and> distinct [''a/b/report.txt'', ''z.txt'']"
proof -
  let ?root = "Some (Dir [(''z.txt'', regular 1),
                       (''a'', Dir [(''b'', Dir [(''report.txt'', regular 10)]),
                                    (''.DS_Store'', regular 7)])])"
  have wf: "wf_root ?root" by code_simp
  have v: "map relative_path (fst (clean_directory ''/path/to/scan'' ?root FileStats_init)) =
      [''a/b/report.txt'', ''z.txt'']" by code_simp
  from clean_directory_sorted_no_duplicates [of "''/path/to/scan''" ?root FileStats_init] wf v
  show ?thesis by simp
qed




end
